theory Spec2Isabelle
  imports Main "HOL-Library.Word"
begin

unbundle bit_operations_syntax

section \<open>Machine integers and page arithmetic (internals.go)\<close>

text \<open>
  Go's \<open>int\<close> and \<open>uintptr\<close> on a 64-bit target are both 64-bit values: \<open>+\<close>, \<open>-\<close> and
  \<open>*\<close> wrap modulo \<open>2 ^ 64\<close>, \<open>&\<close> and \<open>^\<close> (unary) are bitwise. An \<open>int\<close> is read
  with \<open>sint\<close>, a \<open>uintptr\<close> with \<open>uint\<close>; the conversion \<open>uintptr(i)\<close> keeps the bits.
  The package variable \<open>pageSize = os.Getpagesize()\<close> is a parameter of every function
  that reads it.
\<close>

type_synonym gint = "64 word"
type_synonym uintptr = "64 word"
type_synonym byte = "8 word"

text \<open>
  \<^verbatim>\<open>func roundToPageSize(length int) int {
      return (length + (pageSize - 1)) & (^(pageSize - 1)) }\<close>
\<close>

definition roundToPageSize :: "gint \<Rightarrow> gint \<Rightarrow> gint" where
  "roundToPageSize pageSize length' = (length' + (pageSize - 1)) AND (NOT (pageSize - 1))"

section \<open>Slices and the container (internals.go)\<close>

text \<open>
  A Go slice is the triple that \<open>getBytes\<close> writes out: the address of its first
  element, its length and its capacity. The nil slice is all zero.
\<close>

record slice =
  addr :: uintptr
  len :: gint
  cap :: gint

definition nil_slice :: slice where
  "nil_slice = \<lparr>addr = 0, len = 0, cap = 0\<rparr>"

text \<open>
  \<^verbatim>\<open>func getBytes(ptr uintptr, len int) []byte\<close>: the slice header
  \<open>{ptr, len, len}\<close> reinterpreted as a byte slice.
\<close>

definition getBytes :: "uintptr \<Rightarrow> gint \<Rightarrow> slice" where
  "getBytes ptr n = \<lparr>addr = ptr, len = n, cap = n\<rparr>"

text \<open>The struct \<open>container\<close>; its embedded mutex plays no role in a sequential run.\<close>

record container =
  buffer :: slice
  readOnly :: bool
  destroyed :: bool

text \<open>
  What ends a run: a Go run-time panic (with the message or the run-time error), a memory
  fault on a page that does not allow the access, or the library's \<open>SafePanic\<close>.
\<close>

datatype crash =
  Panic string
  | IndexOutOfRange
  | SliceBoundsOutOfRange
  | Segfault
  | SafePanicked string

text \<open>
  \<^verbatim>\<open>func getAllMemory(b *container) []byte\<close>. The expression \<open>&b.buffer[0]\<close> is
  bounds-checked: on an empty buffer the run-time panics with index out of range.
  Both revisions of the function compute the same three values.
\<close>

definition getAllMemory :: "gint \<Rightarrow> container \<Rightarrow> crash + slice" where
  "getAllMemory pageSize b =
    (let bufLen = len (buffer b);
         roundedBufLen = roundToPageSize pageSize (len (buffer b) + 32)
     in if \<not> 0 < sint (len (buffer b)) then Inl IndexOutOfRange
        else
          let memAddr = addr (buffer b) - ((roundedBufLen - bufLen) + pageSize);
              memLen = (pageSize * 2) + roundedBufLen
          in Inr (getBytes memAddr memLen))"

text \<open>
  Modelled from the spec: the constructor that lays a buffer out is missing from the
  sources, so the place of the user data inside a guarded region is taken from the
  data model: a front guard of \<open>P\<close> bytes, an inner page set of \<open>roundUp(n + 32)\<close> bytes
  whose last \<open>n\<close> bytes are the user data, and a rear guard of \<open>P\<close> bytes. For a region
  starting at \<open>base\<close> the user data starts at the address below.
\<close>

definition layout_data_addr :: "gint \<Rightarrow> uintptr \<Rightarrow> gint \<Rightarrow> uintptr" where
  "layout_data_addr pageSize base n =
     base + pageSize + (roundToPageSize pageSize (n + 32) - n)"


section \<open>The operating system as seen by the package\<close>

text \<open>
  The system calls behind \<open>golang.org/x/sys/unix\<close> are not part of the package. They are
  modelled by their effect on a kernel state: the protection of every mapped byte, the
  pinned bytes, the bytes excluded from core dumps, the memory contents, and the calls
  made so far. Whether the kernel refuses a call is an input (\<open>fails\<close>), as is the place
  of the next anonymous mapping and the output of the random number generator.
\<close>

datatype prot = PROT_NONE | PROT_READ | PROT_WRITE | PROT_READ_WRITE

datatype errno = EINVAL | ENOMEM | EPERM | EAGAIN | EFAULT

datatype syscall =
  Mmap gint
  | Munmap uintptr gint
  | Mlock uintptr gint
  | Munlock uintptr gint
  | Mprotect uintptr gint prot
  | Madvise uintptr gint gint
  | GetRandom uintptr gint

record kernel =
  prot_of :: "uintptr \<Rightarrow> prot option"
  locked :: "uintptr \<Rightarrow> bool"
  dontdump :: "uintptr \<Rightarrow> bool"
  mem :: "uintptr \<Rightarrow> byte"
  fails :: "syscall \<Rightarrow> errno option"
  next_map :: uintptr
  entropy :: "nat \<Rightarrow> byte"
  drawn :: nat
  trace :: "syscall list"

text \<open>The bytes \<open>base, base + 1, \<dots>, base + n - 1\<close> (addresses wrap as \<open>uintptr\<close> does).\<close>

definition in_range :: "uintptr \<Rightarrow> gint \<Rightarrow> uintptr \<Rightarrow> bool" where
  "in_range base n a = (a - base < n)"

definition readable :: "kernel \<Rightarrow> uintptr \<Rightarrow> bool" where
  "readable k a = (prot_of k a = Some PROT_READ \<or> prot_of k a = Some PROT_READ_WRITE)"

definition writable :: "kernel \<Rightarrow> uintptr \<Rightarrow> bool" where
  "writable k a = (prot_of k a = Some PROT_WRITE \<or> prot_of k a = Some PROT_READ_WRITE)"

definition logged :: "syscall \<Rightarrow> kernel \<Rightarrow> kernel" where
  "logged c k = k\<lparr>trace := trace k @ [c]\<rparr>"

text \<open>
  \<open>mmap\<close> of an anonymous private read-write mapping: fresh zero pages, neither pinned
  nor marked. The Go wrapper returns them as a slice of length and capacity \<open>n\<close>.
\<close>

definition sys_mmap :: "gint \<Rightarrow> kernel \<Rightarrow> (errno + slice) \<times> kernel" where
  "sys_mmap n k =
    (case fails k (Mmap n) of
       Some e \<Rightarrow> (Inl e, logged (Mmap n) k)
     | None \<Rightarrow>
         (Inr (getBytes (next_map k) n),
          (logged (Mmap n) k)
            \<lparr>prot_of := (\<lambda>a. if in_range (next_map k) n a then Some PROT_READ_WRITE
                             else prot_of k a),
             locked := (\<lambda>a. if in_range (next_map k) n a then False else locked k a),
             dontdump := (\<lambda>a. if in_range (next_map k) n a then False else dontdump k a),
             mem := (\<lambda>a. if in_range (next_map k) n a then 0 else mem k a),
             next_map := next_map k + n\<rparr>))"

definition sys_munmap :: "slice \<Rightarrow> kernel \<Rightarrow> errno option \<times> kernel" where
  "sys_munmap b k =
    (case fails k (Munmap (addr b) (len b)) of
       Some e \<Rightarrow> (Some e, logged (Munmap (addr b) (len b)) k)
     | None \<Rightarrow>
         (None,
          (logged (Munmap (addr b) (len b)) k)
            \<lparr>prot_of := (\<lambda>a. if in_range (addr b) (len b) a then None else prot_of k a),
             locked := (\<lambda>a. if in_range (addr b) (len b) a then False else locked k a)\<rparr>))"

definition sys_mlock :: "slice \<Rightarrow> kernel \<Rightarrow> errno option \<times> kernel" where
  "sys_mlock b k =
    (case fails k (Mlock (addr b) (len b)) of
       Some e \<Rightarrow> (Some e, logged (Mlock (addr b) (len b)) k)
     | None \<Rightarrow>
         (None,
          (logged (Mlock (addr b) (len b)) k)
            \<lparr>locked := (\<lambda>a. if in_range (addr b) (len b) a then True else locked k a)\<rparr>))"

definition sys_munlock :: "slice \<Rightarrow> kernel \<Rightarrow> errno option \<times> kernel" where
  "sys_munlock b k =
    (case fails k (Munlock (addr b) (len b)) of
       Some e \<Rightarrow> (Some e, logged (Munlock (addr b) (len b)) k)
     | None \<Rightarrow>
         (None,
          (logged (Munlock (addr b) (len b)) k)
            \<lparr>locked := (\<lambda>a. if in_range (addr b) (len b) a then False else locked k a)\<rparr>))"

text \<open>\<open>mprotect\<close> changes the protection of the mapped bytes of the range.\<close>

definition sys_mprotect :: "slice \<Rightarrow> prot \<Rightarrow> kernel \<Rightarrow> errno option \<times> kernel" where
  "sys_mprotect b p k =
    (case fails k (Mprotect (addr b) (len b) p) of
       Some e \<Rightarrow> (Some e, logged (Mprotect (addr b) (len b) p) k)
     | None \<Rightarrow>
         (None,
          (logged (Mprotect (addr b) (len b) p) k)
            \<lparr>prot_of := (\<lambda>a. if in_range (addr b) (len b) a
                             then map_option (\<lambda>_. p) (prot_of k a) else prot_of k a)\<rparr>))"

text \<open>\<open>madvise\<close>; the one advice the package gives is \<open>0x10\<close>, keep out of core dumps.\<close>

definition sys_madvise :: "slice \<Rightarrow> gint \<Rightarrow> kernel \<Rightarrow> errno option \<times> kernel" where
  "sys_madvise b advice k =
    (case fails k (Madvise (addr b) (len b) advice) of
       Some e \<Rightarrow> (Some e, logged (Madvise (addr b) (len b) advice) k)
     | None \<Rightarrow>
         (None,
          (logged (Madvise (addr b) (len b) advice) k)
            \<lparr>dontdump := (\<lambda>a. if advice = 16 \<and> in_range (addr b) (len b) a then True
                              else dontdump k a)\<rparr>))"

text \<open>
  \<open>crypto/rand.Read(b)\<close>: the kernel writes the next \<open>len b\<close> bytes of its random
  stream into \<open>b\<close>. It fails when refused, and with \<open>EFAULT\<close> when a byte of \<open>b\<close> may
  not be written.
\<close>

definition offsets :: "gint \<Rightarrow> nat list" where
  "offsets n = [0 ..< nat (sint n)]"

definition rand_Read :: "slice \<Rightarrow> kernel \<Rightarrow> errno option \<times> kernel" where
  "rand_Read b k =
    (case fails k (GetRandom (addr b) (len b)) of
       Some e \<Rightarrow> (Some e, logged (GetRandom (addr b) (len b)) k)
     | None \<Rightarrow>
         if \<not> list_all (\<lambda>i. writable k (addr b + of_nat i)) (offsets (len b))
         then (Some EFAULT, logged (GetRandom (addr b) (len b)) k)
         else
           (None,
            (logged (GetRandom (addr b) (len b)) k)
              \<lparr>mem := (\<lambda>a. if in_range (addr b) (len b) a
                             then entropy k (drawn k + unat (a - addr b)) else mem k a),
               drawn := drawn k + nat (sint (len b))\<rparr>))"

section \<open>Go slice expressions and memory accesses\<close>

text \<open>Sequencing of steps that may end the run.\<close>

definition andThen :: "crash + 'a \<Rightarrow> ('a \<Rightarrow> crash + 'b) \<Rightarrow> crash + 'b" where
  "andThen m f = (case m of Inl c \<Rightarrow> Inl c | Inr x \<Rightarrow> f x)"

text \<open>\<open>s[lo:hi]\<close> panics unless \<open>0 \<le> lo \<le> hi \<le> cap(s)\<close>; \<open>s[lo:]\<close> is \<open>s[lo:len(s)]\<close>.\<close>

definition slice_of :: "slice \<Rightarrow> gint \<Rightarrow> gint \<Rightarrow> crash + slice" where
  "slice_of s lo hi =
    (if 0 \<le> sint lo \<and> sint lo \<le> sint hi \<and> sint hi \<le> sint (cap s)
     then Inr \<lparr>addr = addr s + lo, len = hi - lo, cap = cap s - lo\<rparr>
     else Inl SliceBoundsOutOfRange)"

definition slice_from :: "slice \<Rightarrow> gint \<Rightarrow> crash + slice" where
  "slice_from s lo =
    (if 0 \<le> sint lo \<and> sint lo \<le> sint (len s)
     then Inr \<lparr>addr = addr s + lo, len = len s - lo, cap = cap s - lo\<rparr>
     else Inl SliceBoundsOutOfRange)"

text \<open>\<open>&s[i]\<close> panics unless \<open>0 \<le> i < len(s)\<close>.\<close>

definition index_addr :: "slice \<Rightarrow> gint \<Rightarrow> crash + uintptr" where
  "index_addr s i =
    (if 0 \<le> sint i \<and> sint i < sint (len s) then Inr (addr s + i) else Inl IndexOutOfRange)"

text \<open>A store or a load by the program faults on a page that does not allow it.\<close>

definition store_byte :: "uintptr \<Rightarrow> byte \<Rightarrow> kernel \<Rightarrow> crash + kernel" where
  "store_byte a v k =
    (if writable k a then Inr (k\<lparr>mem := (mem k)(a := v)\<rparr>) else Inl Segfault)"

definition load_bytes :: "slice \<Rightarrow> kernel \<Rightarrow> crash + byte list" where
  "load_bytes s k =
    (if list_all (\<lambda>i. readable k (addr s + of_nat i)) (offsets (len s))
     then Inr (map (\<lambda>i. mem k (addr s + of_nat i)) (offsets (len s)))
     else Inl Segfault)"

text \<open>
  The built-in \<open>copy(dst, src)\<close>: \<open>min(len(dst), len(src))\<close> bytes, read before any is
  written (the two may overlap).
\<close>

definition copy_bytes :: "slice \<Rightarrow> slice \<Rightarrow> kernel \<Rightarrow> crash + kernel" where
  "copy_bytes dst src k =
    (let n = (if sint (len src) < sint (len dst) then len src else len dst)
     in andThen (load_bytes (src\<lparr>len := n\<rparr>) k) (\<lambda>bs.
          if list_all (\<lambda>i. writable k (addr dst + of_nat i)) (offsets n)
          then Inr (k\<lparr>mem := (\<lambda>a. if in_range (addr dst) n a
                                    then bs ! unat (a - addr dst) else mem k a)\<rparr>)
          else Inl Segfault))"

section \<open>The platform calls (memcall/memcall_unix.go)\<close>

text \<open>
  Every wrapper panics when its system call fails. \<open>Lock\<close> first advises the kernel to
  keep the pages out of core dumps and ignores whether that worked. A panic carries the
  fixed part of its message; the address and the error that the source formats into it
  are left out. The address is \<^verbatim>\<open>&b[0]\<close>, evaluated while the message is built: on an
  empty slice that index expression itself panics, and the run ends with
  \<open>IndexOutOfRange\<close> in place of the message. \<open>Alloc\<close> formats no address.
\<close>

definition Lock :: "slice \<Rightarrow> kernel \<Rightarrow> crash + (unit \<times> kernel)" where
  "Lock b k =
    (let (ignored, k1) = sys_madvise b 16 k
     in case sys_mlock b k1 of
          (Some err, k2) \<Rightarrow>
            andThen (index_addr b 0) (\<lambda>p.
              Inl (Panic ''memguard.memcall.Lock(): could not aquire lock''))
        | (None, k2) \<Rightarrow> Inr ((), k2))"

definition Unlock :: "slice \<Rightarrow> kernel \<Rightarrow> crash + (unit \<times> kernel)" where
  "Unlock b k =
    (case sys_munlock b k of
       (Some err, k1) \<Rightarrow>
         andThen (index_addr b 0) (\<lambda>p.
           Inl (Panic ''memguard.memcall.Unlock(): could not free lock''))
     | (None, k1) \<Rightarrow> Inr ((), k1))"

definition Alloc :: "gint \<Rightarrow> kernel \<Rightarrow> crash + (slice \<times> kernel)" where
  "Alloc n k =
    (case sys_mmap n k of
       (Inl err, k1) \<Rightarrow> Inl (Panic ''memguard.memcall.Alloc(): could not allocate'')
     | (Inr b, k1) \<Rightarrow> Inr (b, k1))"

definition Free :: "slice \<Rightarrow> kernel \<Rightarrow> crash + (unit \<times> kernel)" where
  "Free b k =
    (case sys_munmap b k of
       (Some err, k1) \<Rightarrow>
         andThen (index_addr b 0) (\<lambda>p.
           Inl (Panic ''memguard.memcall.Free(): could not unallocate''))
     | (None, k1) \<Rightarrow> Inr ((), k1))"

definition Protect :: "slice \<Rightarrow> bool \<Rightarrow> bool \<Rightarrow> kernel \<Rightarrow> crash + (unit \<times> kernel)" where
  "Protect b read write k =
    (let prot = (if read \<and> write then PROT_READ_WRITE
                 else if read then PROT_READ
                 else if write then PROT_WRITE
                 else PROT_NONE)
     in case sys_mprotect b prot k of
          (Some err, k1) \<Rightarrow>
            andThen (index_addr b 0) (\<lambda>p.
              Inl (Panic ''memguard.memcall.Protect(): could not set''))
        | (None, k1) \<Rightarrow> Inr ((), k1))"

section \<open>The canary and the byte helpers (internals.go)\<close>

text \<open>\<^verbatim>\<open>func fillRandBytes(b []byte)\<close> panics when the generator fails.\<close>

definition fillRandBytes :: "slice \<Rightarrow> kernel \<Rightarrow> crash + (unit \<times> kernel)" where
  "fillRandBytes b k =
    (case rand_Read b k of
       (Some err, k1) \<Rightarrow> Inl (Panic ''memguard.csprng(): could not get random bytes'')
     | (None, k1) \<Rightarrow> Inr ((), k1))"

text \<open>
  \<^verbatim>\<open>func wipeBytes(buf []byte) { for i := 0; i < len(buf); i++ { buf[i] = byte(0) } }\<close>
  (the later revision ranges over \<open>buf\<close>, which visits the same indices in the same
  order).
\<close>

function wipeLoop :: "slice \<Rightarrow> gint \<Rightarrow> kernel \<Rightarrow> crash + kernel" where
  "wipeLoop buf i k =
    (if sint i < sint (len buf)
     then (case store_byte (addr buf + i) 0 k of
             Inl c \<Rightarrow> Inl c
           | Inr k1 \<Rightarrow> wipeLoop buf (i + 1) k1)
     else Inr k)"
  by pat_completeness auto
termination
proof (relation "measure (\<lambda>(buf, i, k). nat (sint (len buf) - sint i))")
  show "wf (measure (\<lambda>(buf, i, k). nat (sint (len buf) - sint i)))"
    by simp
next
  fix buf :: slice and i :: gint and k x2 :: kernel
  assume lt: "sint i < sint (len buf)"
  have "sint (len buf) < 2 ^ 63"
    using sint_lt [of "len buf"] by simp
  with lt have "sint i + 1 < 2 ^ 63" by linarith
  moreover have "- (2 ^ 63) \<le> sint i + 1"
    using sint_ge [of i] by simp
  ultimately have "signed_take_bit 63 (sint i + 1) = sint i + 1"
    by (intro signed_take_bit_int_eq_self) simp_all
  moreover have "sint (i + 1) = signed_take_bit 63 (sint i + 1)"
    by (simp add: sint_word_ariths)
  ultimately have "sint (i + 1) = sint i + 1"
    by (simp only:)
  with lt show "((buf, i + 1, x2), (buf, i, k))
      \<in> measure (\<lambda>(buf, i, k). nat (sint (len buf) - sint i))"
    by simp
qed

definition wipeBytes :: "slice \<Rightarrow> kernel \<Rightarrow> crash + kernel" where
  "wipeBytes buf k = wipeLoop buf 0 k"

text \<open>
  \<open>createCanary\<close> as internals.go has it, on the panicking platform calls above. The
  pages are pinned first, then the guard pages are closed.
\<close>

definition createCanary :: "gint \<Rightarrow> kernel \<Rightarrow> crash + (slice \<times> kernel)" where
  "createCanary pageSize k =
    (let roundedLen = roundToPageSize pageSize 32;
         totalLen = (2 * pageSize) + roundedLen
     in
     andThen (Alloc totalLen k) (\<lambda>(memory, k1).
     andThen (slice_of memory pageSize (pageSize + roundedLen)) (\<lambda>inner.
     andThen (Lock inner k1) (\<lambda>(u, k2).
     andThen (slice_of memory 0 pageSize) (\<lambda>front.
     andThen (Protect front False False k2) (\<lambda>(u, k3).
     andThen (slice_from memory (pageSize + roundedLen)) (\<lambda>rear.
     andThen (Protect rear False False k3) (\<lambda>(u, k4).
     andThen (index_addr memory (pageSize + roundedLen - 32)) (\<lambda>p.
     let c = getBytes p 32 in
     andThen (fillRandBytes c k4) (\<lambda>(u, k5).
     andThen (slice_of memory pageSize (pageSize + roundedLen)) (\<lambda>inner'.
     andThen (Protect inner' True False k5) (\<lambda>(u, k6).
     Inr (c, k6)))))))))))))"

text \<open>
  Modelled from the spec: the \<open>memcall.Alloc\<close> that returns an error, which the later
  revision of \<open>createCanary\<close> calls, is missing from the sources. After the platform
  interface of the spec it maps \<open>n\<close> bytes and reports the refusal of the kernel to its
  caller.
\<close>

definition Alloc_err :: "gint \<Rightarrow> kernel \<Rightarrow> (errno + slice) \<times> kernel" where
  "Alloc_err n k = sys_mmap n k"

text \<open>
  Modelled from the spec: the \<open>memcall.Protect\<close> that returns an error is missing from
  the sources. It sets the protection to the combination asked for, as the \<open>Protect\<close>
  above does, and reports a failure to its caller.
\<close>

definition Protect_err :: "slice \<Rightarrow> bool \<Rightarrow> bool \<Rightarrow> kernel \<Rightarrow> errno option \<times> kernel" where
  "Protect_err b read write k =
    sys_mprotect b (if read \<and> write then PROT_READ_WRITE
                    else if read then PROT_READ
                    else if write then PROT_WRITE
                    else PROT_NONE) k"

text \<open>
  Modelled from the spec: the \<open>memcall.Lock\<close> that returns an error is missing from the
  sources. After the platform interface of the spec it pins the pages (the advice
  against core dumps is an operation of its own there) and reports a failure to its
  caller.
\<close>

definition Lock_err :: "slice \<Rightarrow> kernel \<Rightarrow> errno option \<times> kernel" where
  "Lock_err b k = sys_mlock b k"

text \<open>
  Modelled from the spec: \<open>SafePanic\<close> is missing from the sources. It destroys all live
  buffers and then ends the process; a run that reaches it does not continue, and the
  state it leaves is of no further use.
\<close>

definition SafePanic :: "errno \<Rightarrow> crash + 'a" where
  "SafePanic err = Inl (SafePanicked ''memguard: fatal platform error'')"

text \<open>
  \<open>createCanary\<close> as the later revision of the file has it: every platform call returns
  an error, every error goes to \<open>SafePanic\<close>, and the guard pages are closed before the
  inner pages are pinned.
\<close>

definition createCanary_rev2 :: "gint \<Rightarrow> kernel \<Rightarrow> crash + (slice \<times> kernel)" where
  "createCanary_rev2 pageSize k =
    (let roundedLen = roundToPageSize pageSize 32;
         totalLen = (2 * pageSize) + roundedLen
     in
     case Alloc_err totalLen k of
       (Inl err, k1) \<Rightarrow> SafePanic err
     | (Inr memory, k1) \<Rightarrow>
     andThen (slice_of memory 0 pageSize) (\<lambda>front.
     case Protect_err front False False k1 of
       (Some err, k2) \<Rightarrow> SafePanic err
     | (None, k2) \<Rightarrow>
     andThen (slice_from memory (pageSize + roundedLen)) (\<lambda>rear.
     case Protect_err rear False False k2 of
       (Some err, k3) \<Rightarrow> SafePanic err
     | (None, k3) \<Rightarrow>
     andThen (slice_of memory pageSize (pageSize + roundedLen)) (\<lambda>inner.
     case Lock_err inner k3 of
       (Some err, k4) \<Rightarrow> SafePanic err
     | (None, k4) \<Rightarrow>
     andThen (index_addr memory (pageSize + roundedLen - 32)) (\<lambda>p.
     let c = getBytes p 32 in
     andThen (fillRandBytes c k4) (\<lambda>(u, k5).
     andThen (slice_of memory pageSize (pageSize + roundedLen)) (\<lambda>inner'.
     case Protect_err inner' True False k5 of
       (Some err, k6) \<Rightarrow> SafePanic err
     | (None, k6) \<Rightarrow> Inr (c, k6))))))))"

text \<open>
  What \<open>createCanary\<close> is to leave behind when it is run in state \<open>k\<close> and returns the
  slice \<open>c\<close> in state \<open>k'\<close>: a region of \<open>2 * P + roundToPageSize 32\<close> bytes at the place
  of the mapping, whose first and last \<open>P\<close> bytes allow no access, whose middle bytes are
  pinned and read-only, and whose contents are zero but for the last 32 middle bytes,
  which hold the next 32 random bytes and which \<open>c\<close> describes. Nothing outside the
  region has changed.
\<close>

definition canary_region :: "gint \<Rightarrow> kernel \<Rightarrow> slice \<Rightarrow> kernel \<Rightarrow> bool" where
  "canary_region P k c k' =
    (let L = roundToPageSize P 32; T = 2 * P + L; base = next_map k
     in c = getBytes (base + (P + L - 32)) 32
      \<and> (\<forall>a.
           (in_range base P a \<longrightarrow> prot_of k' a = Some PROT_NONE)
         \<and> (in_range (base + P) L a \<longrightarrow> prot_of k' a = Some PROT_READ \<and> locked k' a)
         \<and> (in_range (base + (P + L)) P a \<longrightarrow> prot_of k' a = Some PROT_NONE)
         \<and> (in_range (addr c) 32 a \<longrightarrow>
               in_range (base + P) L a \<and> mem k' a = entropy k (drawn k + unat (a - addr c)))
         \<and> (in_range base T a \<and> \<not> in_range (addr c) 32 a \<longrightarrow> mem k' a = 0)
         \<and> (in_range base T a \<longleftrightarrow>
               in_range base P a \<or> in_range (base + P) L a \<or> in_range (base + (P + L)) P a)
         \<and> (\<not> in_range base T a \<longrightarrow>
               prot_of k' a = prot_of k a \<and> mem k' a = mem k a \<and> locked k' a = locked k a)))"

text \<open>The kernel accepts each of the listed calls.\<close>

definition accepts :: "kernel \<Rightarrow> syscall list \<Rightarrow> bool" where
  "accepts k cs = list_all (\<lambda>c. fails k c = None) cs"

text \<open>The calls of \<open>createCanary\<close> whose failure ends the run, for a mapping at \<open>base\<close>.\<close>

definition canary_calls :: "gint \<Rightarrow> uintptr \<Rightarrow> syscall list" where
  "canary_calls P base =
    (let L = roundToPageSize P 32
     in [Mmap (2 * P + L),
         Mlock (base + P) L,
         Mprotect base P PROT_NONE,
         Mprotect (base + (P + L)) P PROT_NONE,
         GetRandom (base + (P + L - 32)) 32,
         Mprotect (base + P) L PROT_READ])"

section \<open>Locked buffers\<close>

text \<open>
  Modelled from the spec: the file that defines \<open>New\<close>, \<open>NewFromBytes\<close>, \<open>Destroy\<close>,
  \<open>Copy\<close>, \<open>Move\<close>, \<open>EqualTo\<close>, \<open>MarkAsReadOnly\<close>, \<open>MarkAsReadWrite\<close> and \<open>Trim\<close>, and
  the three error values, is missing from the sources; only its tests are there. The
  operations below follow the component design of the spec step by step, on the
  \<open>container\<close>, the platform calls and the helpers that the sources do have:
  \<open>getAllMemory\<close> finds the region of a buffer, \<open>getBytes\<close> builds the views,
  \<open>wipeBytes\<close> zeroes, and \<open>canary\<close> is the slice that \<open>createCanary\<close> returned. The
  registry of live buffers, the finalizer and the mutexes are left out: a single
  thread runs one operation at a time on one buffer.
\<close>

datatype error = ErrInvalidLength | ErrReadOnly | ErrDestroyed

text \<open>
  Modelled from the spec: \<open>Create(n)\<close>. A length below one is rejected before anything
  is allocated. Otherwise the region is mapped, its inner pages are pinned and kept out
  of core dumps, both guards are closed, the canary is copied into the 32 bytes before
  the user data, and the buffer is a view of exactly the last \<open>n\<close> bytes of the inner
  pages, writable and live.
\<close>

definition New :: "gint \<Rightarrow> slice \<Rightarrow> gint \<Rightarrow> kernel \<Rightarrow> crash + ((error + container) \<times> kernel)" where
  "New pageSize canary n k =
    (if sint n < 1 then Inr (Inl ErrInvalidLength, k)
     else
       let inner = roundToPageSize pageSize (n + 32);
           total = (2 * pageSize) + inner
       in
       andThen (Alloc total k) (\<lambda>(region, k1).
       andThen (slice_of region pageSize (pageSize + inner)) (\<lambda>inner_pages.
       andThen (Lock inner_pages k1) (\<lambda>(u, k2).
       andThen (slice_of region 0 pageSize) (\<lambda>front.
       andThen (Protect front False False k2) (\<lambda>(u, k3).
       andThen (slice_from region (pageSize + inner)) (\<lambda>rear.
       andThen (Protect rear False False k3) (\<lambda>(u, k4).
       andThen (slice_of inner_pages (inner - n - 32) (inner - n)) (\<lambda>canarySlot.
       andThen (copy_bytes canarySlot canary k4) (\<lambda>k5.
       andThen (index_addr inner_pages (inner - n)) (\<lambda>p.
       Inr (Inr \<lparr>buffer = getBytes p n, readOnly = False, destroyed = False\<rparr>, k5))))))))))))"

text \<open>
  Modelled from the spec: \<open>Destroy\<close>. On a destroyed buffer it returns at once.
  Otherwise the inner pages are made readable and writable, the 32 bytes before the data
  are compared with the canary (a mismatch is fatal), those bytes and the data are
  wiped, the pages are unpinned, the whole region is made readable and writable and
  unmapped, and the buffer is marked: no data, not read-only, destroyed. It has no
  error to return.
\<close>

definition Destroy :: "gint \<Rightarrow> slice \<Rightarrow> container \<Rightarrow> kernel \<Rightarrow> crash + (container \<times> kernel)" where
  "Destroy pageSize canary b k =
    (if destroyed b then Inr (b, k)
     else
       andThen (getAllMemory pageSize b) (\<lambda>region.
       andThen (slice_of region pageSize (len region - pageSize)) (\<lambda>inner_pages.
       andThen (Protect inner_pages True True k) (\<lambda>(u, k1).
       let canarySlot = getBytes (addr (buffer b) - 32) 32 in
       andThen (load_bytes canarySlot k1) (\<lambda>found.
       andThen (load_bytes canary k1) (\<lambda>expected.
       if found \<noteq> expected
       then Inl (SafePanicked ''memguard: canary verification failed'')
       else
       andThen (wipeBytes canarySlot k1) (\<lambda>k2.
       andThen (wipeBytes (buffer b) k2) (\<lambda>k3.
       andThen (Unlock inner_pages k3) (\<lambda>(u, k4).
       andThen (Protect region True True k4) (\<lambda>(u, k5).
       andThen (Free region k5) (\<lambda>(u, k6).
       Inr (b\<lparr>buffer := nil_slice, readOnly := False, destroyed := True\<rparr>, k6))))))))))))"

text \<open>
  Modelled from the spec: every operation but \<open>Destroy\<close> first returns \<open>ErrDestroyed\<close>
  on a destroyed buffer. \<open>Copy\<close> then refuses a read-only buffer and otherwise writes
  \<open>min(len(data), len(src))\<close> bytes of \<open>src\<close> into the data.
\<close>

definition Copy :: "container \<Rightarrow> slice \<Rightarrow> kernel \<Rightarrow> crash + (error option \<times> kernel)" where
  "Copy b src k =
    (if destroyed b then Inr (Some ErrDestroyed, k)
     else if readOnly b then Inr (Some ErrReadOnly, k)
     else andThen (copy_bytes (buffer b) src k) (\<lambda>k1. Inr (None, k1)))"

text \<open>
  Modelled from the spec: \<open>Move\<close> is \<open>Copy\<close> followed by wiping \<open>src\<close> over its full
  length; an error of \<open>Copy\<close> is returned as it is.
\<close>

definition Move :: "container \<Rightarrow> slice \<Rightarrow> kernel \<Rightarrow> crash + (error option \<times> kernel)" where
  "Move b src k =
    andThen (Copy b src k) (\<lambda>(err, k1).
      case err of
        Some e \<Rightarrow> Inr (Some e, k1)
      | None \<Rightarrow> andThen (wipeBytes src k1) (\<lambda>k2. Inr (None, k2)))"

text \<open>
  Modelled from the spec: the comparison of \<open>EqualTo\<close> never stops at the first
  mismatch and never looks at a prefix only: sequences of different length are unequal,
  and otherwise the differences of all pairs of bytes are collected and the result is
  whether none was found.
\<close>

definition constantTimeCompare :: "byte list \<Rightarrow> byte list \<Rightarrow> bool" where
  "constantTimeCompare xs ys =
    (if length xs \<noteq> length ys then False
     else fold (\<lambda>(x, y) v. v OR (x XOR y)) (zip xs ys) 0 = 0)"

text \<open>
  Modelled from the spec: \<open>EqualTo\<close> returns \<open>ErrDestroyed\<close> on a destroyed buffer and
  otherwise the result of that comparison of the data with \<open>other\<close>.
\<close>

definition EqualTo :: "container \<Rightarrow> slice \<Rightarrow> kernel \<Rightarrow> crash + (bool \<times> error option)" where
  "EqualTo b other k =
    (if destroyed b then Inr (False, Some ErrDestroyed)
     else
       andThen (load_bytes (buffer b) k) (\<lambda>xs.
       andThen (load_bytes other k) (\<lambda>ys.
       Inr (constantTimeCompare xs ys, None))))"

text \<open>
  Modelled from the spec: \<open>MarkAsReadOnly\<close> makes the inner pages read-only and sets the
  flag, unless the buffer is read-only already.
\<close>

definition MarkAsReadOnly :: "gint \<Rightarrow> container \<Rightarrow> kernel \<Rightarrow> crash + (error option \<times> container \<times> kernel)" where
  "MarkAsReadOnly pageSize b k =
    (if destroyed b then Inr (Some ErrDestroyed, b, k)
     else if readOnly b then Inr (None, b, k)
     else
       andThen (getAllMemory pageSize b) (\<lambda>region.
       andThen (slice_of region pageSize (len region - pageSize)) (\<lambda>inner_pages.
       andThen (Protect inner_pages True False k) (\<lambda>(u, k1).
       Inr (None, b\<lparr>readOnly := True\<rparr>, k1)))))"

text \<open>
  Modelled from the spec: \<open>MarkAsReadWrite\<close> makes the inner pages readable and writable
  and clears the flag, if the buffer is read-only.
\<close>

definition MarkAsReadWrite :: "gint \<Rightarrow> container \<Rightarrow> kernel \<Rightarrow> crash + (error option \<times> container \<times> kernel)" where
  "MarkAsReadWrite pageSize b k =
    (if destroyed b then Inr (Some ErrDestroyed, b, k)
     else if \<not> readOnly b then Inr (None, b, k)
     else
       andThen (getAllMemory pageSize b) (\<lambda>region.
       andThen (slice_of region pageSize (len region - pageSize)) (\<lambda>inner_pages.
       andThen (Protect inner_pages True True k) (\<lambda>(u, k1).
       Inr (None, b\<lparr>readOnly := False\<rparr>, k1)))))"

text \<open>
  Modelled from the spec: \<open>Trim\<close> makes a fresh buffer of \<open>size\<close> bytes holding
  \<open>data[offset .. offset + size]\<close>, read-only if and only if the source is; bounds outside
  the data are an \<open>ErrInvalidLength\<close>. The source stays as it is.
\<close>

definition Trim :: "gint \<Rightarrow> slice \<Rightarrow> container \<Rightarrow> gint \<Rightarrow> gint \<Rightarrow> kernel
    \<Rightarrow> crash + ((error + container) \<times> kernel)" where
  "Trim pageSize canary b offset size' k =
    (if destroyed b then Inr (Inl ErrDestroyed, k)
     else if sint offset < 0 \<or> sint size' < 1
             \<or> sint (len (buffer b)) < sint offset + sint size'
     then Inr (Inl ErrInvalidLength, k)
     else
       andThen (New pageSize canary size' k) (\<lambda>(r, k1).
       case r of
         Inl e \<Rightarrow> Inr (Inl e, k1)
       | Inr nb \<Rightarrow>
           andThen (slice_of (buffer b) offset (offset + size')) (\<lambda>part.
           andThen (copy_bytes (buffer nb) part k1) (\<lambda>k2.
           if readOnly b
           then andThen (MarkAsReadOnly pageSize nb k2) (\<lambda>(err, nb', k3). Inr (Inr nb', k3))
           else Inr (Inr nb, k2)))))"


text \<open>
  Modelled from the spec: what the flags of a buffer satisfy at any time. A destroyed
  buffer has no data and is not read-only.
\<close>

definition container_inv :: "container \<Rightarrow> bool" where
  "container_inv b = (destroyed b \<longrightarrow> buffer b = nil_slice \<and> \<not> readOnly b)"

text \<open>
  Modelled from the spec: the state that a live buffer is in between two operations,
  after the invariants of the data model. The sizes of its layout fit in an \<open>int\<close>;
  its whole region is mapped; its inner pages carry the protection that the flag
  announces; the canary is 32 readable bytes outside the region; and the 32 bytes before
  the data are a copy of it.
\<close>

definition guarded :: "gint \<Rightarrow> slice \<Rightarrow> container \<Rightarrow> kernel \<Rightarrow> bool" where
  "guarded P K b k =
    (let n = len (buffer b);
         L = roundToPageSize P (n + 32);
         base = addr (buffer b) - ((L - n) + P)
     in \<not> destroyed b \<and> cap (buffer b) = n \<and> 0 < sint n \<and> 0 < sint P
      \<and> sint n + 32 \<le> sint L
      \<and> sint (P + L) = sint P + sint L
      \<and> sint (2 * P + L) = 2 * sint P + sint L
      \<and> len K = 32
      \<and> (\<forall>a.
           (in_range base (2 * P + L) a \<longrightarrow> prot_of k a \<noteq> None)
         \<and> (in_range (base + P) L a \<longrightarrow>
               prot_of k a = Some (if readOnly b then PROT_READ else PROT_READ_WRITE))
         \<and> (in_range (addr K) 32 a \<longrightarrow>
               readable k a \<and> \<not> in_range base (2 * P + L) a
               \<and> mem k (addr (buffer b) - 32 + (a - addr K)) = mem k a)))"

text \<open>The calls of \<open>New\<close> and of \<open>Destroy\<close> whose failure ends the run.\<close>

definition new_calls :: "gint \<Rightarrow> uintptr \<Rightarrow> gint \<Rightarrow> syscall list" where
  "new_calls P base n =
    (let L = roundToPageSize P (n + 32)
     in [Mmap (2 * P + L),
         Mlock (base + P) L,
         Mprotect base P PROT_NONE,
         Mprotect (base + (P + L)) P PROT_NONE])"

definition destroy_calls :: "gint \<Rightarrow> container \<Rightarrow> syscall list" where
  "destroy_calls P b =
    (let n = len (buffer b);
         L = roundToPageSize P (n + 32);
         base = addr (buffer b) - ((L - n) + P)
     in [Mprotect (base + P) L PROT_READ_WRITE,
         Munlock (base + P) L,
         Mprotect base (2 * P + L) PROT_READ_WRITE,
         Munmap base (2 * P + L)])"

section \<open>Two concrete machines\<close>

text \<open>
  A freshly started process on a co-operative kernel: nothing is mapped, the next
  mapping goes to address \<open>0x10000\<close>, no call is refused, and the random stream is
  \<open>1, 2, 3, \<dots>\<close>. The second machine refuses every call with \<open>ENOMEM\<close>.
\<close>

definition boot :: kernel where
  "boot = \<lparr>prot_of = (\<lambda>a. None), locked = (\<lambda>a. False), dontdump = (\<lambda>a. False),
     mem = (\<lambda>a. 0), fails = (\<lambda>c. None), next_map = 65536,
     entropy = (\<lambda>i. of_nat i + 1), drawn = 0, trace = []\<rparr>"

definition refusing :: kernel where
  "refusing = boot\<lparr>fails := (\<lambda>c. Some ENOMEM)\<rparr>"

text \<open>
  A process with one ordinary read-write page at \<open>0x1000\<close> that holds the bytes of
  \<open>test\<close> at offset 0, of \<open>toast\<close> at offset 8 and of \<open>test\<close> again at offset 16.
\<close>

definition heap_bytes :: "byte list" where
  "heap_bytes = [116, 101, 115, 116, 0, 0, 0, 0, 116, 111, 97, 115, 116, 0, 0, 0,
                 116, 101, 115, 116]"

definition heap :: kernel where
  "heap = boot\<lparr>prot_of := (\<lambda>a. if in_range 4096 4096 a then Some PROT_READ_WRITE else None),
     mem := (\<lambda>a. if in_range 4096 20 a then heap_bytes ! unat (a - 4096) else 0)\<rparr>"


section \<open>Rounding to the page size\<close>

lemma and_not_mask_minus: "(w::'a::len word) AND NOT (mask n) = w - take_bit n w"
proof -
  have "w AND NOT (mask n) = push_bit n (drop_bit n w)"
    by (rule bit_eqI) (auto simp add: bit_simps)
  moreover have "push_bit n (drop_bit n w) + take_bit n w = w"
    by (rule bits_ident)
  ultimately show ?thesis
    by (metis add_diff_cancel_right')
qed

lemma sint_of_int_64:
  "- (2 ^ 63) \<le> i \<Longrightarrow> i < 2 ^ 63 \<Longrightarrow> sint (word_of_int i :: gint) = i"
  by (simp add: sint_sbintrunc' signed_take_bit_int_eq_self)

lemma take_bit_of_int_64:
  "k \<le> 64 \<Longrightarrow> take_bit k (word_of_int i :: gint) = word_of_int (i mod 2 ^ k)"
  apply (simp only: flip: take_bit_eq_mod)
  apply (rule bit_eqI)
  apply (auto simp add: bit_simps)
  done

text \<open>
  The value of \<open>roundToPageSize\<close> for a page size \<open>2 ^ k\<close>, wrap-around included: the
  sum \<open>x + P - 1\<close> with its remainder modulo \<open>P\<close> taken off, read modulo \<open>2 ^ 64\<close>.
\<close>

lemma roundToPageSize_of_int:
  assumes "k \<le> 64"
  shows "roundToPageSize (2 ^ k) x =
    word_of_int ((sint x + 2 ^ k - 1) - (sint x + 2 ^ k - 1) mod 2 ^ k)"
proof -
  let ?Y = "sint x + 2 ^ k - 1"
  have y: "x + (2 ^ k - 1) = (word_of_int ?Y :: gint)"
    by simp
  have "roundToPageSize (2 ^ k) x = (x + (2 ^ k - 1)) AND NOT (mask k)"
    by (simp add: roundToPageSize_def mask_eq_exp_minus_1)
  also have "\<dots> = word_of_int ?Y - take_bit k (word_of_int ?Y)"
    by (simp only: y and_not_mask_minus)
  also have "\<dots> = word_of_int (?Y - ?Y mod 2 ^ k)"
    by (simp only: take_bit_of_int_64 [OF assms] wi_hom_sub)
  finally show ?thesis .
qed

lemma pow2_lt_63: "k < 63 \<Longrightarrow> (2::int) ^ k < 2 ^ 63"
  using power_strict_increasing [of k 63 "2::int"] by simp

text \<open>Rounding up on the integers: what the masked sum is when nothing wraps.\<close>

lemma round_int_least:
  fixes X P :: int
  assumes "0 < P"
  defines "R \<equiv> (X + P - 1) - (X + P - 1) mod P"
  shows "P dvd R" "X \<le> R" "R < X + P" "\<And>m. P dvd m \<Longrightarrow> X \<le> m \<Longrightarrow> R \<le> m"
proof -
  show d: "P dvd R" unfolding R_def by (simp add: minus_mod_eq_mult_div)
  have m: "0 \<le> (X + P - 1) mod P" "(X + P - 1) mod P < P"
    using assms(1) by simp_all
  show "X \<le> R" unfolding R_def using m by linarith
  show lt: "R < X + P" unfolding R_def using m by linarith
  fix m assume "P dvd m" "X \<le> m"
  show "R \<le> m"
  proof (rule ccontr)
    assume "\<not> R \<le> m"
    then have "m < R" by simp
    from \<open>P dvd m\<close> d have "P dvd (R - m)" by (rule_tac dvd_diff)
    moreover have "0 < R - m" using \<open>m < R\<close> by simp
    ultimately have "P \<le> R - m" by (rule zdvd_imp_le)
    with lt \<open>X \<le> m\<close> show False by linarith
  qed
qed

lemma sint_roundToPageSize:
  assumes k: "k < 63" and x0: "0 \<le> sint x" and nov: "sint x + 2 ^ k - 1 < 2 ^ 63"
  shows "sint (roundToPageSize (2 ^ k) x) =
     (sint x + 2 ^ k - 1) - (sint x + 2 ^ k - 1) mod 2 ^ k"
proof -
  let ?P = "(2::int) ^ k"
  let ?R = "(sint x + ?P - 1) - (sint x + ?P - 1) mod ?P"
  have P: "0 < ?P" by simp
  note L = round_int_least [OF P, where X = "sint x"]
  have "0 \<le> ?R" using L(2) x0 by linarith
  moreover have "?R < 2 ^ 63"
  proof -
    have "0 \<le> (sint x + ?P - 1) mod ?P" by simp
    then show ?thesis using nov by linarith
  qed
  ultimately have "sint (word_of_int ?R :: gint) = ?R"
    by (intro sint_of_int_64) simp_all
  moreover have "roundToPageSize (2 ^ k) x = word_of_int ?R"
    using k by (intro roundToPageSize_of_int) simp
  ultimately show ?thesis
    by (simp only:)
qed

text \<open>
  Claim C8. With a page size \<open>P = 2 ^ k\<close> that is positive as an \<open>int\<close> (\<open>k < 63\<close>),
  an argument \<open>x \<ge> 0\<close> and a sum \<open>x + P - 1\<close> that does not overflow, the result of
  \<open>roundToPageSize\<close> is a multiple of \<open>P\<close>, is at least \<open>x\<close>, and no multiple of \<open>P\<close>
  that is at least \<open>x\<close> is smaller; in particular it maps \<open>j * P\<close> to \<open>j * P\<close> and
  \<open>j * P + 1\<close> to \<open>(j + 1) * P\<close> for every \<open>j \<ge> 1\<close>.
\<close>

theorem roundToPageSize_least_multiple:
  assumes k: "k < 63" and x0: "0 \<le> sint x" and nov: "sint x + 2 ^ k - 1 < 2 ^ 63"
  shows "2 ^ k dvd sint (roundToPageSize (2 ^ k) x)
       \<and> sint x \<le> sint (roundToPageSize (2 ^ k) x)
       \<and> (\<forall>m. 2 ^ k dvd m \<and> sint x \<le> m \<longrightarrow> sint (roundToPageSize (2 ^ k) x) \<le> m)
       \<and> (\<forall>j. 1 \<le> j \<and> sint x = j * 2 ^ k \<longrightarrow> sint (roundToPageSize (2 ^ k) x) = j * 2 ^ k)
       \<and> (\<forall>j. 1 \<le> j \<and> sint x = j * 2 ^ k + 1 \<longrightarrow>
             sint (roundToPageSize (2 ^ k) x) = (j + 1) * 2 ^ k)"
proof -
  let ?P = "(2::int) ^ k"
  let ?R = "(sint x + ?P - 1) - (sint x + ?P - 1) mod ?P"
  have P: "0 < ?P" by simp
  note L = round_int_least [OF P, where X = "sint x"]
  have s: "sint (roundToPageSize (2 ^ k) x) = ?R"
    using k x0 nov by (rule sint_roundToPageSize)
  have a: "?P dvd ?R" by (rule L(1))
  have b: "sint x \<le> ?R" by (rule L(2))
  have c: "\<forall>m. ?P dvd m \<and> sint x \<le> m \<longrightarrow> ?R \<le> m" using L(4) by blast
  have d: "\<forall>j. 1 \<le> j \<and> sint x = j * ?P \<longrightarrow> ?R = j * ?P"
  proof (intro allI impI)
    fix j assume "1 \<le> j \<and> sint x = j * ?P"
    then have e: "sint x = j * ?P" by simp
    have "j * ?P + ?P - 1 = (?P - 1) + j * ?P" by simp
    then have "(j * ?P + ?P - 1) mod ?P = (?P - 1) mod ?P"
      by (simp only: mod_mult_self1)
    also have "\<dots> = ?P - 1"
      by (rule mod_pos_pos_trivial) simp_all
    finally show "?R = j * ?P" by (simp only: e)
  qed
  have e: "\<forall>j. 1 \<le> j \<and> sint x = j * ?P + 1 \<longrightarrow> ?R = (j + 1) * ?P"
  proof (intro allI impI)
    fix j assume "1 \<le> j \<and> sint x = j * ?P + 1"
    then have e: "sint x = j * ?P + 1" by simp
    have "j * ?P + 1 + ?P - 1 = (j + 1) * ?P" by (simp add: algebra_simps)
    then show "?R = (j + 1) * ?P" by (simp only: e) simp
  qed
  show ?thesis
    unfolding s using a b c d e by (intro conjI)
qed

theorem roundToPageSize_least_multiple_witness:
  "(12::nat) < 63 \<and> 0 \<le> sint (4097 :: gint) \<and> sint (4097 :: gint) + 2 ^ 12 - 1 < 2 ^ 63
   \<and> 2 ^ 12 dvd sint (roundToPageSize (2 ^ 12) 4097)
   \<and> sint (4097 :: gint) \<le> sint (roundToPageSize (2 ^ 12) 4097)
   \<and> sint (roundToPageSize (2 ^ 12) 4097) = 2 * 2 ^ 12"
proof -
  have h1: "(12::nat) < 63" by simp
  have h2: "0 \<le> sint (4097 :: gint)" by simp
  have h3: "sint (4097 :: gint) + 2 ^ 12 - 1 < 2 ^ 63" by simp
  note T = roundToPageSize_least_multiple [OF h1 h2 h3]
  note T5 = T [THEN conjunct2, THEN conjunct2, THEN conjunct2, THEN conjunct2, THEN spec, of 1]
  have "sint (roundToPageSize (2 ^ 12) 4097) = 2 * 2 ^ 12"
    using T5 by simp
  then show ?thesis
    using T [THEN conjunct1] T [THEN conjunct2, THEN conjunct1] h1 h2 h3 by (intro conjI)
qed

lemma sint_min_64: "sint (word_of_int (2 ^ 63) :: gint) = - (2 ^ 63)"
  by (simp add: sint_sbintrunc')

lemma mod_pow2_top:
  fixes Y :: int
  assumes "k < 63" "2 ^ 63 \<le> Y" "Y < 2 ^ 63 + 2 ^ k"
  shows "Y - Y mod 2 ^ k = 2 ^ 63"
proof -
  have "(2::int) ^ 63 = 2 ^ (63 - k) * 2 ^ k"
    using assms(1) by (simp flip: power_add)
  then have "Y = (Y - 2 ^ 63) + 2 ^ (63 - k) * 2 ^ k" by simp
  then have "Y mod 2 ^ k = (Y - 2 ^ 63) mod 2 ^ k"
    by (metis mod_mult_self1)
  also have "\<dots> = Y - 2 ^ 63"
    using assms by (intro mod_pos_pos_trivial) simp_all
  finally show ?thesis by simp
qed

text \<open>
  Claim C10. On 64-bit \<open>int\<close>s with a page size \<open>P = 2 ^ k\<close> (\<open>k < 63\<close>), every \<open>x\<close>
  with \<open>2 ^ 63 - P < x\<close> (and \<open>x \<le> 2 ^ 63 - 1\<close>, as every \<open>int\<close> is) makes the sum
  \<open>x + P - 1\<close> exceed the largest \<open>int\<close>: the machine sum is negative, and
  \<open>roundToPageSize\<close> returns \<open>- 2 ^ 63\<close>, which is negative and strictly less than \<open>x\<close>,
  so it is not the least multiple of \<open>P\<close> that is at least \<open>x\<close>.
\<close>

theorem roundToPageSize_wraps_near_max:
  assumes k: "k < 63" and x: "2 ^ 63 - 2 ^ k < sint x"
  shows "sint x \<le> 2 ^ 63 - 1
       \<and> 2 ^ 63 \<le> sint x + 2 ^ k - 1
       \<and> sint (x + (2 ^ k - 1)) < 0
       \<and> sint (roundToPageSize (2 ^ k) x) = - (2 ^ 63)
       \<and> sint (roundToPageSize (2 ^ k) x) < 0
       \<and> sint (roundToPageSize (2 ^ k) x) < sint x"
proof -
  let ?Y = "sint x + 2 ^ k - 1"
  have ub: "sint x < 2 ^ 63"
    using sint_lt [of x] by simp
  have lo: "2 ^ 63 \<le> ?Y" using x by linarith
  have hi: "?Y < 2 ^ 63 + 2 ^ k" using ub by linarith
  have R: "?Y - ?Y mod 2 ^ k = 2 ^ 63"
    using k lo hi by (rule mod_pow2_top)
  have "roundToPageSize (2 ^ k) x = word_of_int (?Y - ?Y mod 2 ^ k)"
    using k by (intro roundToPageSize_of_int) simp
  then have r: "sint (roundToPageSize (2 ^ k) x) = - (2 ^ 63)"
    by (simp only: R sint_min_64)
  have xpos: "0 < sint x"
    using x pow2_lt_63 [OF k] by linarith
  have "x + (2 ^ k - 1) = (word_of_int ?Y :: gint)" by simp
  also have "\<dots> = word_of_int (?Y - 2 ^ 64)"
    by (simp add: word_of_int_eq_iff take_bit_eq_mod)
  finally have "sint (x + (2 ^ k - 1)) = sint (word_of_int (?Y - 2 ^ 64) :: gint)"
    by (simp only:)
  also have "\<dots> = ?Y - 2 ^ 64"
    using lo hi pow2_lt_63 [OF k] by (intro sint_of_int_64) simp_all
  finally have w: "sint (x + (2 ^ k - 1)) < 0"
    using hi pow2_lt_63 [OF k] by simp
  show ?thesis
    using ub lo w r xpos by simp
qed

theorem roundToPageSize_wraps_near_max_witness:
  "(12::nat) < 63 \<and> 2 ^ 63 - 2 ^ 12 < sint (9223372036854775807 :: gint)
   \<and> sint (roundToPageSize (2 ^ 12) 9223372036854775807) = - (2 ^ 63)
   \<and> sint (roundToPageSize (2 ^ 12) 9223372036854775807) < sint (9223372036854775807 :: gint)"
proof -
  have h1: "(12::nat) < 63" by simp
  have h2: "2 ^ 63 - 2 ^ 12 < sint (9223372036854775807 :: gint)" by simp
  from roundToPageSize_wraps_near_max [OF h1 h2] h1 h2 show ?thesis by blast
qed

section \<open>Failing platform calls\<close>

text \<open>
  Claim C9, as stated, at a concrete input: on the machine that refuses every call,
  \<open>Unlock\<close> of a page does not return; it stops the run with a panic.
\<close>

theorem Unlock_failure_panics_counterexample:
  "Unlock (getBytes 69632 4096) refusing
     = Inl (Panic ''memguard.memcall.Unlock(): could not free lock'')"
  by (simp add: Unlock_def sys_munlock_def refusing_def boot_def getBytes_def
      andThen_def index_addr_def)

text \<open>
  Claim C9, amended. \<open>Unlock\<close> returns exactly when the kernel accepts the unpin call,
  and then the bytes of the region are no longer pinned and nothing else changed but the
  log of calls. When the kernel refuses the call, \<open>Unlock\<close> does not return: on a region
  that is not empty it panics with its message, exactly as \<open>Lock\<close> panics when the
  kernel refuses the pin call; on an empty slice each of the two ends the run with an
  index out of range, raised while the message is built.
\<close>

theorem Unlock_panics_iff_munlock_fails:
  "(fails k (Munlock (addr b) (len b)) \<noteq> None \<longrightarrow>
      Unlock b k = Inl (if 0 < sint (len b)
                        then Panic ''memguard.memcall.Unlock(): could not free lock''
                        else IndexOutOfRange))
   \<and> (fails k (Munlock (addr b) (len b)) = None \<longrightarrow>
      Unlock b k = Inr ((), k\<lparr>locked := (\<lambda>a. if in_range (addr b) (len b) a then False
                                             else locked k a),
                                trace := trace k @ [Munlock (addr b) (len b)]\<rparr>))
   \<and> (fails k (Mlock (addr b) (len b)) \<noteq> None \<longrightarrow>
      Lock b k = Inl (if 0 < sint (len b)
                      then Panic ''memguard.memcall.Lock(): could not aquire lock''
                      else IndexOutOfRange))"
  by (auto simp add: Unlock_def Lock_def sys_munlock_def sys_mlock_def sys_madvise_def
      logged_def andThen_def index_addr_def split: option.splits)

theorem Unlock_panics_iff_munlock_fails_witness:
  "fails refusing (Munlock 69632 4096) \<noteq> None
   \<and> Unlock (getBytes 69632 4096) refusing
       = Inl (Panic ''memguard.memcall.Unlock(): could not free lock'')
   \<and> fails refusing (Munlock 0 0) \<noteq> None
   \<and> Unlock nil_slice refusing = Inl IndexOutOfRange
   \<and> fails boot (Munlock 69632 4096) = None
   \<and> (\<exists>k'. Unlock (getBytes 69632 4096) boot = Inr ((), k'))
   \<and> fails refusing (Mlock 69632 4096) \<noteq> None
   \<and> Lock (getBytes 69632 4096) refusing
       = Inl (Panic ''memguard.memcall.Lock(): could not aquire lock'')
   \<and> fails refusing (Mlock 0 0) \<noteq> None
   \<and> Lock nil_slice refusing = Inl IndexOutOfRange"
proof -
  have a: "addr (getBytes 69632 4096) = 69632" "len (getBytes 69632 4096) = 4096"
    "addr nil_slice = 0" "len nil_slice = 0"
    by (simp_all add: getBytes_def nil_slice_def)
  have h1: "fails refusing (Munlock 69632 4096) \<noteq> None"
    by (simp add: refusing_def boot_def)
  have h2: "fails boot (Munlock 69632 4096) = None"
    by (simp add: boot_def)
  have h3: "fails refusing (Mlock 69632 4096) \<noteq> None"
    by (simp add: refusing_def boot_def)
  have h4: "fails refusing (Munlock 0 0) \<noteq> None"
    by (simp add: refusing_def boot_def)
  have h5: "fails refusing (Mlock 0 0) \<noteq> None"
    by (simp add: refusing_def boot_def)
  note T1 = Unlock_panics_iff_munlock_fails [of refusing "getBytes 69632 4096", unfolded a]
  note T2 = Unlock_panics_iff_munlock_fails [of boot "getBytes 69632 4096", unfolded a]
  note T3 = Unlock_panics_iff_munlock_fails [of refusing nil_slice, unfolded a]
  from T1 h1 have c1: "Unlock (getBytes 69632 4096) refusing
       = Inl (Panic ''memguard.memcall.Unlock(): could not free lock'')"
    by simp
  from T2 h2 have c2: "\<exists>k'. Unlock (getBytes 69632 4096) boot = Inr ((), k')"
    by blast
  from T1 h3 have c3: "Lock (getBytes 69632 4096) refusing
       = Inl (Panic ''memguard.memcall.Lock(): could not aquire lock'')"
    by simp
  from T3 h4 have c4: "Unlock nil_slice refusing = Inl IndexOutOfRange"
    by simp
  from T3 h5 have c5: "Lock nil_slice refusing = Inl IndexOutOfRange"
    by simp
  from h1 c1 h4 c4 h2 c2 h3 c3 h5 c5 show ?thesis
    by (intro conjI)
qed

section \<open>Signed values and address ranges\<close>

lemma sint_pow2_64: "j < 63 \<Longrightarrow> sint (2 ^ j :: gint) = 2 ^ j"
proof -
  assume j: "j < 63"
  have "(2 ^ j :: gint) = word_of_int (2 ^ j)" by simp
  moreover have "sint (word_of_int (2 ^ j) :: gint) = 2 ^ j"
  proof (rule sint_of_int_64)
    show "- (2 ^ 63) \<le> (2::int) ^ j"
      by (rule order_trans [of _ 0]) simp_all
    show "(2::int) ^ j < 2 ^ 63" using j by (rule pow2_lt_63)
  qed
  ultimately show ?thesis by (simp only:)
qed

lemma sint_add_64:
  "- (2 ^ 63) \<le> sint a + sint b \<Longrightarrow> sint a + sint b < 2 ^ 63 \<Longrightarrow>
   sint (a + b :: gint) = sint a + sint b"
  by (simp add: sint_word_ariths signed_take_bit_int_eq_self)

lemma sint_sub_64:
  "- (2 ^ 63) \<le> sint a - sint b \<Longrightarrow> sint a - sint b < 2 ^ 63 \<Longrightarrow>
   sint (a - b :: gint) = sint a - sint b"
  by (simp add: sint_word_ariths signed_take_bit_int_eq_self)

lemma uint_of_nonneg: "0 \<le> sint (n::gint) \<Longrightarrow> uint n = sint n"
proof -
  assume "0 \<le> sint n"
  moreover have "sint n < 2 ^ 64" using sint_lt [of n] by simp
  ultimately have "take_bit 64 (sint n) = sint n"
    by (simp add: take_bit_int_eq_self)
  then show ?thesis by (simp add: uint_sint)
qed

lemma in_range_base: "0 \<le> sint n \<Longrightarrow> in_range base n a \<longleftrightarrow> uint (a - base) < sint n"
  by (simp add: in_range_def word_less_def uint_of_nonneg)

lemma in_range_offset:
  assumes "0 \<le> sint off" "0 \<le> sint n" "sint off + sint n < 2 ^ 63"
  shows "in_range (base + off) n a \<longleftrightarrow>
     sint off \<le> uint (a - base) \<and> uint (a - base) < sint off + sint n"
proof -
  have e: "a - (base + off) = (a - base) - off" by simp
  have o: "uint off = sint off" using assms(1) by (rule uint_of_nonneg)
  have n: "uint n = sint n" using assms(2) by (rule uint_of_nonneg)
  define D where "D = uint (a - base)"
  have d: "0 \<le> D" "D < 2 ^ 64"
    using uint_lt2p [of "a - base"] by (simp_all add: D_def)
  have "in_range (base + off) n a \<longleftrightarrow>
      (if sint off \<le> D then D - sint off else D - sint off + 2 ^ 64) < sint n"
    unfolding in_range_def e word_less_def uint_sub_if' [of "a - base" off] o n D_def
    by simp
  also have "\<dots> \<longleftrightarrow> sint off \<le> D \<and> D < sint off + sint n"
    using assms d by auto
  finally show ?thesis
    unfolding D_def .
qed

lemma layout_arith:
  assumes j: "j < 62" and x0: "0 \<le> sint x" and xb: "sint x + 3 * 2 ^ j \<le> 2 ^ 63"
  defines "L \<equiv> roundToPageSize (2 ^ j) x"
  shows "sint (2 ^ j :: gint) = 2 ^ j"
    and "2 ^ j dvd sint L" and "sint x \<le> sint L" and "sint L < sint x + 2 ^ j"
    and "sint (2 ^ j + L) = 2 ^ j + sint L"
    and "sint (2 * 2 ^ j + L) = 2 * 2 ^ j + sint L"
proof -
  define Q :: int where "Q = 2 ^ j"
  have j63: "j < 63" using j by simp
  have q62: "Q < 2 ^ 62"
    using power_strict_increasing [of j 62 "2::int"] j by (simp add: Q_def)
  have q0: "0 < Q" by (simp add: Q_def)
  have P: "sint (2 ^ j :: gint) = Q" unfolding Q_def using j63 by (rule sint_pow2_64)
  then show "sint (2 ^ j :: gint) = 2 ^ j" by (simp only: Q_def)
  have xb': "sint x + 3 * Q \<le> 2 ^ 63" using xb by (simp only: Q_def)
  have "sint x + Q - 1 < 2 ^ 63" using xb' q0 by simp
  then have nov: "sint x + 2 ^ j - 1 < 2 ^ 63" by (simp only: Q_def)
  have s: "sint L = (sint x + 2 ^ j - 1) - (sint x + 2 ^ j - 1) mod 2 ^ j"
    unfolding L_def using j63 x0 nov by (rule sint_roundToPageSize)
  have p0: "(0::int) < 2 ^ j" by simp
  note R = round_int_least [OF p0, where X = "sint x"]
  show d: "2 ^ j dvd sint L" unfolding s by (rule R(1))
  show lo: "sint x \<le> sint L" unfolding s by (rule R(2))
  show hi: "sint L < sint x + 2 ^ j" unfolding s by (rule R(3))
  have hi': "sint L < sint x + Q" using hi by (simp only: Q_def)
  have b1: "- (2 ^ 63) \<le> sint (2 ^ j :: gint) + sint L" "sint (2 ^ j :: gint) + sint L < 2 ^ 63"
    unfolding P using lo hi' x0 xb' q62 q0 by simp_all
  have PL: "sint (2 ^ j + L) = Q + sint L"
    using sint_add_64 [OF b1] by (simp only: P)
  then show "sint (2 ^ j + L) = 2 ^ j + sint L" by (simp only: Q_def)
  have b2: "- (2 ^ 63) \<le> sint (2 ^ j :: gint) + sint (2 ^ j + L)"
     "sint (2 ^ j :: gint) + sint (2 ^ j + L) < 2 ^ 63"
    unfolding P PL using lo hi' x0 xb' q62 q0 by simp_all
  have "(2 * 2 ^ j + L :: gint) = 2 ^ j + (2 ^ j + L)" by simp
  then have "sint (2 * 2 ^ j + L) = Q + (Q + sint L)"
    using sint_add_64 [OF b2] by (simp only: P PL)
  then show "sint (2 * 2 ^ j + L) = 2 * 2 ^ j + sint L"
    by (simp add: Q_def)
qed

lemma list_all_offsets:
  "list_all Q (offsets n) \<longleftrightarrow> (\<forall>i. i < nat (sint n) \<longrightarrow> Q i)"
  by (auto simp add: offsets_def list_all_iff)

lemma in_range_of_nat:
  assumes "0 \<le> sint n" "i < nat (sint n)"
  shows "in_range b n (b + of_nat i)"
proof -
  have n: "uint n = sint n" using assms(1) by (rule uint_of_nonneg)
  have il: "int i < sint n" using assms(2) by simp
  then have i: "int i < 2 ^ 64" using sint_lt [of n] by simp
  have "uint (of_nat i :: gint) = int i"
    using i by (simp add: uint_nat unat_of_nat take_bit_nat_eq_self nat_less_iff)
  with il n show ?thesis
    by (simp add: in_range_def word_less_def)
qed

text \<open>The arithmetic side of the layout, with the offset of an address from the base.\<close>

lemma region_ranges:
  fixes P L :: gint
  assumes P0: "0 < sint P" and L0: "x \<le> sint L" and x0: "0 \<le> x"
   and PL: "sint (P + L) = sint P + sint L"
   and T: "sint (2 * P + L) = 2 * sint P + sint L"
  shows "in_range base P a \<longleftrightarrow> uint (a - base) < sint P"
    and "in_range (base + P) L a \<longleftrightarrow>
           sint P \<le> uint (a - base) \<and> uint (a - base) < sint P + sint L"
    and "in_range (base + (P + L)) P a \<longleftrightarrow>
           sint P + sint L \<le> uint (a - base) \<and> uint (a - base) < 2 * sint P + sint L"
    and "in_range base (2 * P + L) a \<longleftrightarrow> uint (a - base) < 2 * sint P + sint L"
proof -
  have lt: "2 * sint P + sint L < 2 ^ 63"
    using sint_lt [of "2 * P + L"] T by simp
  show "in_range base P a \<longleftrightarrow> uint (a - base) < sint P"
    using P0 by (simp add: in_range_base)
  show "in_range (base + P) L a \<longleftrightarrow>
           sint P \<le> uint (a - base) \<and> uint (a - base) < sint P + sint L"
    using P0 L0 x0 lt by (intro in_range_offset) simp_all
  have "in_range (base + (P + L)) P a \<longleftrightarrow>
      sint (P + L) \<le> uint (a - base) \<and> uint (a - base) < sint (P + L) + sint P"
    using P0 L0 x0 lt PL by (intro in_range_offset) simp_all
  then show "in_range (base + (P + L)) P a \<longleftrightarrow>
           sint P + sint L \<le> uint (a - base) \<and> uint (a - base) < 2 * sint P + sint L"
    by (simp add: PL)
  show "in_range base (2 * P + L) a \<longleftrightarrow> uint (a - base) < 2 * sint P + sint L"
    using P0 L0 x0 T by (simp add: in_range_base)
qed

lemma sint_inner_minus_32:
  fixes P L :: gint
  assumes P0: "0 < sint P" and L32: "32 \<le> sint L"
   and PL: "sint (P + L) = sint P + sint L"
  shows "sint (P + L - 32) = sint P + sint L - 32"
proof -
  have "sint (P + L) < 2 ^ 63" using sint_lt [of "P + L"] by simp
  then show ?thesis
    using sint_sub_64 [of "P + L" 32] PL P0 L32 by simp
qed

lemma canary_range:
  fixes P L :: gint
  assumes P0: "0 < sint P" and L32: "32 \<le> sint L"
   and PL: "sint (P + L) = sint P + sint L"
  shows "in_range (base + (P + L - 32)) 32 a \<longleftrightarrow>
     sint P + sint L - 32 \<le> uint (a - base) \<and> uint (a - base) < sint P + sint L"
proof -
  note s = sint_inner_minus_32 [OF P0 L32 PL]
  have lt: "sint P + sint L < 2 ^ 63" using sint_lt [of "P + L"] PL by simp
  have "in_range (base + (P + L - 32)) 32 a \<longleftrightarrow>
     sint (P + L - 32) \<le> uint (a - base) \<and> uint (a - base) < sint (P + L - 32) + sint (32 :: gint)"
    using P0 L32 lt by (intro in_range_offset) (simp_all add: s)
  then show ?thesis by (simp add: s)
qed

lemma canary_region_from_fields:
  assumes P0: "0 < sint P" and L32: "32 \<le> sint L"
   and PL: "sint (P + L) = sint P + sint L"
   and T: "sint (2 * P + L) = 2 * sint P + sint L"
   and L: "L = roundToPageSize P 32"
   and base: "base = next_map k"
   and c: "c = getBytes (base + (P + L - 32)) 32"
   and pr: "\<And>a. prot_of k' a =
      (if in_range (base + P) L a then Some PROT_READ
       else if in_range (base + (P + L)) P a then Some PROT_NONE
       else if in_range base P a then Some PROT_NONE
       else if in_range base (2 * P + L) a then Some PROT_READ_WRITE
       else prot_of k a)"
   and lk: "\<And>a. locked k' a =
      (if in_range (base + P) L a then True
       else if in_range base (2 * P + L) a then False else locked k a)"
   and me: "\<And>a. mem k' a =
      (if in_range (base + (P + L - 32)) 32 a
       then entropy k (drawn k + unat (a - (base + (P + L - 32))))
       else if in_range base (2 * P + L) a then 0 else mem k a)"
  shows "canary_region P k c k'"
proof -
  have x0: "(0::int) \<le> 32" by simp
  note R = region_ranges [OF P0 L32 x0 PL T, of base] canary_range [OF P0 L32 PL, of base]
  show ?thesis
    unfolding canary_region_def Let_def L [symmetric] base [symmetric] c
    using P0 L32
    by (auto simp add: pr lk me getBytes_def R)
qed

section \<open>Running the platform calls\<close>

lemma Alloc_ok:
  "fails k (Mmap n) = None \<Longrightarrow>
   Alloc n k = Inr (getBytes (next_map k) n,
     k\<lparr>prot_of := (\<lambda>a. if in_range (next_map k) n a then Some PROT_READ_WRITE else prot_of k a),
       locked := (\<lambda>a. if in_range (next_map k) n a then False else locked k a),
       dontdump := (\<lambda>a. if in_range (next_map k) n a then False else dontdump k a),
       mem := (\<lambda>a. if in_range (next_map k) n a then 0 else mem k a),
       next_map := next_map k + n,
       trace := trace k @ [Mmap n]\<rparr>)"
  by (simp add: Alloc_def sys_mmap_def logged_def)

lemma Lock_ok:
  "fails k (Mlock (addr b) (len b)) = None \<Longrightarrow>
   Lock b k = Inr ((),
     k\<lparr>locked := (\<lambda>a. if in_range (addr b) (len b) a then True else locked k a),
       dontdump := (\<lambda>a. if fails k (Madvise (addr b) (len b) 16) = None
                             \<and> in_range (addr b) (len b) a then True else dontdump k a),
       trace := trace k @ [Madvise (addr b) (len b) 16, Mlock (addr b) (len b)]\<rparr>)"
  by (cases "fails k (Madvise (addr b) (len b) 16)")
     (simp_all add: Lock_def sys_mlock_def sys_madvise_def logged_def)

lemma Protect_ok:
  "fails k (Mprotect (addr b) (len b)
      (if r \<and> w then PROT_READ_WRITE else if r then PROT_READ
        else if w then PROT_WRITE else PROT_NONE)) = None \<Longrightarrow>
   Protect b r w k = Inr ((),
     k\<lparr>prot_of := (\<lambda>a. if in_range (addr b) (len b) a
                       then map_option (\<lambda>_. if r \<and> w then PROT_READ_WRITE else if r then PROT_READ
        else if w then PROT_WRITE else PROT_NONE) (prot_of k a) else prot_of k a),
       trace := trace k @ [Mprotect (addr b) (len b) (if r \<and> w then PROT_READ_WRITE else if r then PROT_READ
        else if w then PROT_WRITE else PROT_NONE)]\<rparr>)"
  by (cases r; cases w; simp add: Protect_def sys_mprotect_def logged_def)

lemma fillRandBytes_ok:
  "fails k (GetRandom (addr b) (len b)) = None \<Longrightarrow>
   \<forall>i. i < nat (sint (len b)) \<longrightarrow> writable k (addr b + of_nat i) \<Longrightarrow>
   fillRandBytes b k = Inr ((),
     k\<lparr>mem := (\<lambda>a. if in_range (addr b) (len b) a
                     then entropy k (drawn k + unat (a - addr b)) else mem k a),
       drawn := drawn k + nat (sint (len b)),
       trace := trace k @ [GetRandom (addr b) (len b)]\<rparr>)"
  by (simp add: fillRandBytes_def rand_Read_def logged_def list_all_offsets)

lemma createCanary_run:
  fixes P L :: gint
  assumes P0: "0 < sint P" and L32: "32 \<le> sint L"
   and PL: "sint (P + L) = sint P + sint L"
   and T: "sint (2 * P + L) = 2 * sint P + sint L"
   and L: "L = roundToPageSize P 32"
   and base: "base = next_map k"
   and acc: "accepts k (canary_calls P base)"
  shows "\<exists>c k'. createCanary P k = Inr (c, k') \<and> canary_region P k c k'
     \<and> trace k' = trace k @ [Mmap (2 * P + L), Madvise (base + P) L 16, Mlock (base + P) L,
          Mprotect base P PROT_NONE, Mprotect (base + (P + L)) P PROT_NONE,
          GetRandom (base + (P + L - 32)) 32, Mprotect (base + P) L PROT_READ]
     \<and> drawn k' = drawn k + 32
     \<and> fails k' = fails k \<and> next_map k' = base + (2 * P + L)"
proof -
  note s32 = sint_inner_minus_32 [OF P0 L32 PL]
  have x0: "(0::int) \<le> 32" by simp
  note R = region_ranges [OF P0 L32 x0 PL T, of base] canary_range [OF P0 L32 PL, of base]
  from acc have f:
    "fails k (Mmap (2 * P + L)) = None"
    "fails k (Mlock (base + P) L) = None"
    "fails k (Mprotect base P PROT_NONE) = None"
    "fails k (Mprotect (base + (P + L)) P PROT_NONE) = None"
    "fails k (GetRandom (base + (P + L - 32)) 32) = None"
    "fails k (Mprotect (base + P) L PROT_READ) = None"
    by (simp_all add: accepts_def canary_calls_def Let_def L)
  define memory where "memory = getBytes base (2 * P + L)"
  define k1 where "k1 = k\<lparr>prot_of := (\<lambda>a. if in_range (next_map k) (2 * P + L) a then Some PROT_READ_WRITE else prot_of k a),
       locked := (\<lambda>a. if in_range (next_map k) (2 * P + L) a then False else locked k a),
       dontdump := (\<lambda>a. if in_range (next_map k) (2 * P + L) a then False else dontdump k a),
       mem := (\<lambda>a. if in_range (next_map k) (2 * P + L) a then 0 else mem k a),
       next_map := next_map k + (2 * P + L),
       trace := trace k @ [Mmap (2 * P + L)]\<rparr>"
  have a1: "Alloc (2 * P + L) k = Inr (memory, k1)"
    unfolding memory_def k1_def base using f(1) by (rule Alloc_ok)
  have fk1: "fails k1 = fails k" by (simp add: k1_def)
  define inner where "inner = \<lparr>addr = base + P, len = L, cap = 2 * P + L - P\<rparr>"
  have i1: "slice_of memory P (P + L) = Inr inner"
    using P0 L32 PL T by (simp add: slice_of_def memory_def getBytes_def inner_def)
  define k2 where "k2 = k1\<lparr>locked := (\<lambda>a. if in_range (base + P) L a then True else locked k1 a),
       dontdump := (\<lambda>a. if fails k1 (Madvise (base + P) L 16) = None
                             \<and> in_range (base + P) L a then True else dontdump k1 a),
       trace := trace k1 @ [Madvise (base + P) L 16, Mlock (base + P) L]\<rparr>"
  have a2: "Lock inner k1 = Inr ((), k2)"
  proof -
    have "fails k1 (Mlock (addr inner) (len inner)) = None"
      using f(2) by (simp add: fk1 inner_def)
    from Lock_ok [OF this] show ?thesis by (simp add: k2_def inner_def)
  qed
  have fk2: "fails k2 = fails k" by (simp add: k2_def fk1)
  define front where "front = \<lparr>addr = base, len = P, cap = 2 * P + L\<rparr>"
  have i2: "slice_of memory 0 P = Inr front"
    using P0 L32 PL T by (simp add: slice_of_def memory_def getBytes_def front_def)
  define k3 where "k3 = k2\<lparr>prot_of := (\<lambda>a. if in_range base P a
                       then map_option (\<lambda>_. PROT_NONE) (prot_of k2 a) else prot_of k2 a),
       trace := trace k2 @ [Mprotect base P PROT_NONE]\<rparr>"
  have a3: "Protect front False False k2 = Inr ((), k3)"
  proof -
    have "fails k2 (Mprotect (addr front) (len front)
       (if False \<and> False then PROT_READ_WRITE else if False then PROT_READ
        else if False then PROT_WRITE else PROT_NONE)) = None"
      using f(3) by (simp add: fk2 front_def)
    from Protect_ok [OF this] show ?thesis by (simp add: k3_def front_def)
  qed
  have fk3: "fails k3 = fails k" by (simp add: k3_def fk2)
  define rear where "rear = \<lparr>addr = base + (P + L), len = P, cap = 2 * P + L - (P + L)\<rparr>"
  have i3: "slice_from memory (P + L) = Inr rear"
    using P0 L32 PL T by (simp add: slice_from_def memory_def getBytes_def rear_def)
  define k4 where "k4 = k3\<lparr>prot_of := (\<lambda>a. if in_range (base + (P + L)) P a
                       then map_option (\<lambda>_. PROT_NONE) (prot_of k3 a) else prot_of k3 a),
       trace := trace k3 @ [Mprotect (base + (P + L)) P PROT_NONE]\<rparr>"
  have a4: "Protect rear False False k3 = Inr ((), k4)"
  proof -
    have "fails k3 (Mprotect (addr rear) (len rear)
       (if False \<and> False then PROT_READ_WRITE else if False then PROT_READ
        else if False then PROT_WRITE else PROT_NONE)) = None"
      using f(4) by (simp add: fk3 rear_def)
    from Protect_ok [OF this] show ?thesis by (simp add: k4_def rear_def)
  qed
  have fk4: "fails k4 = fails k" by (simp add: k4_def fk3)
  have i4: "index_addr memory (P + L - 32) = Inr (base + (P + L - 32))"
    using P0 L32 PL T s32 by (simp add: index_addr_def memory_def getBytes_def)
  define c where "c = getBytes (base + (P + L - 32)) 32"
  define k5 where "k5 = k4\<lparr>mem := (\<lambda>a. if in_range (base + (P + L - 32)) 32 a
                     then entropy k4 (drawn k4 + unat (a - (base + (P + L - 32)))) else mem k4 a),
       drawn := drawn k4 + 32,
       trace := trace k4 @ [GetRandom (base + (P + L - 32)) 32]\<rparr>"
  have ac: "addr c = base + (P + L - 32)" "len c = 32"
    by (simp_all add: c_def getBytes_def)
  have w: "\<forall>i. i < nat (sint (len c)) \<longrightarrow> writable k4 (addr c + of_nat i)"
  proof (intro allI impI)
    fix i assume i: "i < nat (sint (len c))"
    have "in_range (addr c) (len c) (addr c + of_nat i)"
      using i by (intro in_range_of_nat) (simp_all add: c_def getBytes_def)
    then have "in_range (base + (P + L - 32)) 32 (addr c + of_nat i)"
      by (simp add: c_def getBytes_def)
    then show "writable k4 (addr c + of_nat i)"
      using P0 L32
      by (simp add: writable_def k4_def k3_def k2_def k1_def R flip: base)
  qed
  have a5: "fillRandBytes c k4 = Inr ((), k5)"
  proof -
    have "fails k4 (GetRandom (addr c) (len c)) = None"
      using f(5) by (simp add: fk4 c_def getBytes_def)
    from fillRandBytes_ok [OF this w] show ?thesis
      unfolding k5_def ac by simp
  qed
  have fk5: "fails k5 = fails k" by (simp add: k5_def fk4)
  define k6 where "k6 = k5\<lparr>prot_of := (\<lambda>a. if in_range (base + P) L a
                       then map_option (\<lambda>_. PROT_READ) (prot_of k5 a) else prot_of k5 a),
       trace := trace k5 @ [Mprotect (base + P) L PROT_READ]\<rparr>"
  have a6: "Protect inner True False k5 = Inr ((), k6)"
  proof -
    have "fails k5 (Mprotect (addr inner) (len inner)
       (if True \<and> False then PROT_READ_WRITE else if True then PROT_READ
        else if False then PROT_WRITE else PROT_NONE)) = None"
      using f(6) by (simp add: fk5 inner_def)
    from Protect_ok [OF this] show ?thesis by (simp add: k6_def inner_def)
  qed
  have run: "createCanary P k = Inr (c, k6)"
    unfolding createCanary_def Let_def L [symmetric]
    by (simp add: andThen_def a1 i1 a2 i2 a3 i3 a4 i4 a5 a6 flip: c_def)
  have reg: "canary_region P k c k6"
  proof (rule canary_region_from_fields [OF P0 L32 PL T L base])
    show "c = getBytes (base + (P + L - 32)) 32" by (rule c_def)
  next
    fix a
    show "prot_of k6 a =
      (if in_range (base + P) L a then Some PROT_READ
       else if in_range (base + (P + L)) P a then Some PROT_NONE
       else if in_range base P a then Some PROT_NONE
       else if in_range base (2 * P + L) a then Some PROT_READ_WRITE
       else prot_of k a)"
      using P0 L32 by (simp add: k6_def k5_def k4_def k3_def k2_def k1_def R flip: base)
    show "locked k6 a =
      (if in_range (base + P) L a then True
       else if in_range base (2 * P + L) a then False else locked k a)"
      by (simp add: k6_def k5_def k4_def k3_def k2_def k1_def flip: base)
    show "mem k6 a =
      (if in_range (base + (P + L - 32)) 32 a
       then entropy k (drawn k + unat (a - (base + (P + L - 32))))
       else if in_range base (2 * P + L) a then 0 else mem k a)"
      by (simp add: k6_def k5_def k4_def k3_def k2_def k1_def flip: base)
  qed
  have tr: "trace k6 = trace k @ [Mmap (2 * P + L), Madvise (base + P) L 16, Mlock (base + P) L,
          Mprotect base P PROT_NONE, Mprotect (base + (P + L)) P PROT_NONE,
          GetRandom (base + (P + L - 32)) 32, Mprotect (base + P) L PROT_READ]"
    by (simp add: k6_def k5_def k4_def k3_def k2_def k1_def)
  have dr: "drawn k6 = drawn k + 32"
    by (simp add: k6_def k5_def k4_def k3_def k2_def k1_def)
  have fk6: "fails k6 = fails k"
    by (simp add: k6_def fk5)
  have nm: "next_map k6 = base + (2 * P + L)"
    by (simp add: k6_def k5_def k4_def k3_def k2_def k1_def base)
  from run reg tr dr fk6 nm show ?thesis by blast
qed

lemma Alloc_err_ok:
  "fails k (Mmap n) = None \<Longrightarrow>
   Alloc_err n k = (Inr (getBytes (next_map k) n),
     k\<lparr>prot_of := (\<lambda>a. if in_range (next_map k) n a then Some PROT_READ_WRITE else prot_of k a),
       locked := (\<lambda>a. if in_range (next_map k) n a then False else locked k a),
       dontdump := (\<lambda>a. if in_range (next_map k) n a then False else dontdump k a),
       mem := (\<lambda>a. if in_range (next_map k) n a then 0 else mem k a),
       next_map := next_map k + n,
       trace := trace k @ [Mmap n]\<rparr>)"
  by (simp add: Alloc_err_def sys_mmap_def logged_def)

lemma Lock_err_ok:
  "fails k (Mlock (addr b) (len b)) = None \<Longrightarrow>
   Lock_err b k = (None,
     k\<lparr>locked := (\<lambda>a. if in_range (addr b) (len b) a then True else locked k a),
       trace := trace k @ [Mlock (addr b) (len b)]\<rparr>)"
  by (simp add: Lock_err_def sys_mlock_def logged_def)

lemma Protect_err_ok:
  "fails k (Mprotect (addr b) (len b)
      (if r \<and> w then PROT_READ_WRITE else if r then PROT_READ
        else if w then PROT_WRITE else PROT_NONE)) = None \<Longrightarrow>
   Protect_err b r w k = (None,
     k\<lparr>prot_of := (\<lambda>a. if in_range (addr b) (len b) a
                       then map_option (\<lambda>_. if r \<and> w then PROT_READ_WRITE else if r then PROT_READ
        else if w then PROT_WRITE else PROT_NONE) (prot_of k a) else prot_of k a),
       trace := trace k @ [Mprotect (addr b) (len b) (if r \<and> w then PROT_READ_WRITE else if r then PROT_READ
        else if w then PROT_WRITE else PROT_NONE)]\<rparr>)"
  by (cases r; cases w; simp add: Protect_err_def sys_mprotect_def logged_def)

lemma createCanary_rev2_run:
  fixes P L :: gint
  assumes P0: "0 < sint P" and L32: "32 \<le> sint L"
   and PL: "sint (P + L) = sint P + sint L"
   and T: "sint (2 * P + L) = 2 * sint P + sint L"
   and L: "L = roundToPageSize P 32"
   and base: "base = next_map k"
   and acc: "accepts k (canary_calls P base)"
  shows "\<exists>c k'. createCanary_rev2 P k = Inr (c, k') \<and> canary_region P k c k'
     \<and> trace k' = trace k @ [Mmap (2 * P + L),
          Mprotect base P PROT_NONE, Mprotect (base + (P + L)) P PROT_NONE, Mlock (base + P) L,
          GetRandom (base + (P + L - 32)) 32, Mprotect (base + P) L PROT_READ]
     \<and> drawn k' = drawn k + 32
     \<and> fails k' = fails k \<and> next_map k' = base + (2 * P + L)"
proof -
  note s32 = sint_inner_minus_32 [OF P0 L32 PL]
  have x0: "(0::int) \<le> 32" by simp
  note R = region_ranges [OF P0 L32 x0 PL T, of base] canary_range [OF P0 L32 PL, of base]
  from acc have f:
    "fails k (Mmap (2 * P + L)) = None"
    "fails k (Mlock (base + P) L) = None"
    "fails k (Mprotect base P PROT_NONE) = None"
    "fails k (Mprotect (base + (P + L)) P PROT_NONE) = None"
    "fails k (GetRandom (base + (P + L - 32)) 32) = None"
    "fails k (Mprotect (base + P) L PROT_READ) = None"
    by (simp_all add: accepts_def canary_calls_def Let_def L)
  define memory where "memory = getBytes base (2 * P + L)"
  define k1 where "k1 = k\<lparr>prot_of := (\<lambda>a. if in_range (next_map k) (2 * P + L) a then Some PROT_READ_WRITE else prot_of k a),
       locked := (\<lambda>a. if in_range (next_map k) (2 * P + L) a then False else locked k a),
       dontdump := (\<lambda>a. if in_range (next_map k) (2 * P + L) a then False else dontdump k a),
       mem := (\<lambda>a. if in_range (next_map k) (2 * P + L) a then 0 else mem k a),
       next_map := next_map k + (2 * P + L),
       trace := trace k @ [Mmap (2 * P + L)]\<rparr>"
  have a1: "Alloc_err (2 * P + L) k = (Inr memory, k1)"
    unfolding memory_def k1_def base using f(1) by (rule Alloc_err_ok)
  have fk1: "fails k1 = fails k" by (simp add: k1_def)
  define front where "front = \<lparr>addr = base, len = P, cap = 2 * P + L\<rparr>"
  have i2: "slice_of memory 0 P = Inr front"
    using P0 L32 PL T by (simp add: slice_of_def memory_def getBytes_def front_def)
  define k2 where "k2 = k1\<lparr>prot_of := (\<lambda>a. if in_range base P a
                       then map_option (\<lambda>_. PROT_NONE) (prot_of k1 a) else prot_of k1 a),
       trace := trace k1 @ [Mprotect base P PROT_NONE]\<rparr>"
  have a2: "Protect_err front False False k1 = (None, k2)"
  proof -
    have "fails k1 (Mprotect (addr front) (len front)
       (if False \<and> False then PROT_READ_WRITE else if False then PROT_READ
        else if False then PROT_WRITE else PROT_NONE)) = None"
      using f(3) by (simp add: fk1 front_def)
    from Protect_err_ok [OF this] show ?thesis by (simp add: k2_def front_def)
  qed
  have fk2: "fails k2 = fails k" by (simp add: k2_def fk1)
  define rear where "rear = \<lparr>addr = base + (P + L), len = P, cap = 2 * P + L - (P + L)\<rparr>"
  have i3: "slice_from memory (P + L) = Inr rear"
    using P0 L32 PL T by (simp add: slice_from_def memory_def getBytes_def rear_def)
  define k3 where "k3 = k2\<lparr>prot_of := (\<lambda>a. if in_range (base + (P + L)) P a
                       then map_option (\<lambda>_. PROT_NONE) (prot_of k2 a) else prot_of k2 a),
       trace := trace k2 @ [Mprotect (base + (P + L)) P PROT_NONE]\<rparr>"
  have a3: "Protect_err rear False False k2 = (None, k3)"
  proof -
    have "fails k2 (Mprotect (addr rear) (len rear)
       (if False \<and> False then PROT_READ_WRITE else if False then PROT_READ
        else if False then PROT_WRITE else PROT_NONE)) = None"
      using f(4) by (simp add: fk2 rear_def)
    from Protect_err_ok [OF this] show ?thesis by (simp add: k3_def rear_def)
  qed
  have fk3: "fails k3 = fails k" by (simp add: k3_def fk2)
  define inner where "inner = \<lparr>addr = base + P, len = L, cap = 2 * P + L - P\<rparr>"
  have i1: "slice_of memory P (P + L) = Inr inner"
    using P0 L32 PL T by (simp add: slice_of_def memory_def getBytes_def inner_def)
  define k4 where "k4 = k3\<lparr>locked := (\<lambda>a. if in_range (base + P) L a then True else locked k3 a),
       trace := trace k3 @ [Mlock (base + P) L]\<rparr>"
  have a4: "Lock_err inner k3 = (None, k4)"
  proof -
    have "fails k3 (Mlock (addr inner) (len inner)) = None"
      using f(2) by (simp add: fk3 inner_def)
    from Lock_err_ok [OF this] show ?thesis by (simp add: k4_def inner_def)
  qed
  have fk4: "fails k4 = fails k" by (simp add: k4_def fk3)
  have i4: "index_addr memory (P + L - 32) = Inr (base + (P + L - 32))"
    using P0 L32 PL T s32 by (simp add: index_addr_def memory_def getBytes_def)
  define c where "c = getBytes (base + (P + L - 32)) 32"
  define k5 where "k5 = k4\<lparr>mem := (\<lambda>a. if in_range (base + (P + L - 32)) 32 a
                     then entropy k4 (drawn k4 + unat (a - (base + (P + L - 32)))) else mem k4 a),
       drawn := drawn k4 + 32,
       trace := trace k4 @ [GetRandom (base + (P + L - 32)) 32]\<rparr>"
  have ac: "addr c = base + (P + L - 32)" "len c = 32"
    by (simp_all add: c_def getBytes_def)
  have w: "\<forall>i. i < nat (sint (len c)) \<longrightarrow> writable k4 (addr c + of_nat i)"
  proof (intro allI impI)
    fix i assume i: "i < nat (sint (len c))"
    have "in_range (addr c) (len c) (addr c + of_nat i)"
      using i by (intro in_range_of_nat) (simp_all add: c_def getBytes_def)
    then have "in_range (base + (P + L - 32)) 32 (addr c + of_nat i)"
      by (simp add: c_def getBytes_def)
    then show "writable k4 (addr c + of_nat i)"
      using P0 L32
      by (simp add: writable_def k4_def k3_def k2_def k1_def R flip: base)
  qed
  have a5: "fillRandBytes c k4 = Inr ((), k5)"
  proof -
    have "fails k4 (GetRandom (addr c) (len c)) = None"
      using f(5) by (simp add: fk4 c_def getBytes_def)
    from fillRandBytes_ok [OF this w] show ?thesis
      unfolding k5_def ac by simp
  qed
  have fk5: "fails k5 = fails k" by (simp add: k5_def fk4)
  define k6 where "k6 = k5\<lparr>prot_of := (\<lambda>a. if in_range (base + P) L a
                       then map_option (\<lambda>_. PROT_READ) (prot_of k5 a) else prot_of k5 a),
       trace := trace k5 @ [Mprotect (base + P) L PROT_READ]\<rparr>"
  have a6: "Protect_err inner True False k5 = (None, k6)"
  proof -
    have "fails k5 (Mprotect (addr inner) (len inner)
       (if True \<and> False then PROT_READ_WRITE else if True then PROT_READ
        else if False then PROT_WRITE else PROT_NONE)) = None"
      using f(6) by (simp add: fk5 inner_def)
    from Protect_err_ok [OF this] show ?thesis by (simp add: k6_def inner_def)
  qed
  have run: "createCanary_rev2 P k = Inr (c, k6)"
    unfolding createCanary_rev2_def Let_def L [symmetric]
    by (simp add: andThen_def a1 i1 a2 i2 a3 i3 a4 i4 a5 a6 flip: c_def)
  have reg: "canary_region P k c k6"
  proof (rule canary_region_from_fields [OF P0 L32 PL T L base])
    show "c = getBytes (base + (P + L - 32)) 32" by (rule c_def)
  next
    fix a
    show "prot_of k6 a =
      (if in_range (base + P) L a then Some PROT_READ
       else if in_range (base + (P + L)) P a then Some PROT_NONE
       else if in_range base P a then Some PROT_NONE
       else if in_range base (2 * P + L) a then Some PROT_READ_WRITE
       else prot_of k a)"
      using P0 L32 by (simp add: k6_def k5_def k4_def k3_def k2_def k1_def R flip: base)
    show "locked k6 a =
      (if in_range (base + P) L a then True
       else if in_range base (2 * P + L) a then False else locked k a)"
      by (simp add: k6_def k5_def k4_def k3_def k2_def k1_def flip: base)
    show "mem k6 a =
      (if in_range (base + (P + L - 32)) 32 a
       then entropy k (drawn k + unat (a - (base + (P + L - 32))))
       else if in_range base (2 * P + L) a then 0 else mem k a)"
      by (simp add: k6_def k5_def k4_def k3_def k2_def k1_def flip: base)
  qed
  have tr: "trace k6 = trace k @ [Mmap (2 * P + L),
          Mprotect base P PROT_NONE, Mprotect (base + (P + L)) P PROT_NONE, Mlock (base + P) L,
          GetRandom (base + (P + L - 32)) 32, Mprotect (base + P) L PROT_READ]"
    by (simp add: k6_def k5_def k4_def k3_def k2_def k1_def)
  have dr: "drawn k6 = drawn k + 32"
    by (simp add: k6_def k5_def k4_def k3_def k2_def k1_def)
  have fk6: "fails k6 = fails k"
    by (simp add: k6_def fk5)
  have nm: "next_map k6 = base + (2 * P + L)"
    by (simp add: k6_def k5_def k4_def k3_def k2_def k1_def base)
  from run reg tr dr fk6 nm show ?thesis by blast
qed

section \<open>The canary region\<close>

lemma canary_arith:
  assumes j: "j < 62"
  defines "L \<equiv> roundToPageSize (2 ^ j) 32"
  shows "0 < sint (2 ^ j :: gint)" and "32 \<le> sint L"
    and "sint (2 ^ j + L) = sint (2 ^ j :: gint) + sint L"
    and "sint (2 * 2 ^ j + L) = 2 * sint (2 ^ j :: gint) + sint L"
    and "2 ^ j dvd sint L" and "sint L < 32 + 2 ^ j"
    and "sint (2 * 2 ^ j + L) = 2 * 2 ^ j + sint L"
proof -
  have x0: "0 \<le> sint (32 :: gint)" by simp
  have "(32::int) + 3 * 2 ^ 61 \<le> 2 ^ 63" by simp
  moreover have "(2::int) ^ j \<le> 2 ^ 61" using j by (intro power_increasing) simp_all
  ultimately have xb: "sint (32 :: gint) + 3 * 2 ^ j \<le> 2 ^ 63" by simp
  note A = layout_arith [OF j x0 xb, folded L_def]
  show "0 < sint (2 ^ j :: gint)" by (simp only: A(1)) simp
  show "32 \<le> sint L" using A(3) by simp
  show "sint (2 ^ j + L) = sint (2 ^ j :: gint) + sint L" by (simp only: A(1) A(5))
  show "sint (2 * 2 ^ j + L) = 2 * sint (2 ^ j :: gint) + sint L" by (simp only: A(1) A(6))
  show "2 ^ j dvd sint L" by (rule A(2))
  show "sint L < 32 + 2 ^ j" using A(4) by simp
  show "sint (2 * 2 ^ j + L) = 2 * 2 ^ j + sint L" by (rule A(6))
qed

text \<open>
  Claim C6. With a page size \<open>P = 2 ^ j\<close> (\<open>j < 62\<close>, so that no size overflows) and a
  kernel that accepts the six calls whose failure is fatal, \<open>createCanary\<close> returns, in
  both revisions. The calls it has made, in order, are: one mapping of exactly
  \<open>2 * P + roundToPageSize 32\<close> bytes; the closing of the first \<open>P\<close> and of the last \<open>P\<close>
  bytes to every access and the pinning of the \<open>roundToPageSize 32\<close> bytes between them
  (the earlier revision pins first, after the advice against core dumps; the later one
  closes the guards first); the filling of the last 32 bytes of the middle with random
  bytes; and only then the change of the middle to read-only. In the state it leaves,
  the guards allow no access, the middle is pinned and read-only, exactly the last 32
  bytes of the middle hold the random bytes while the rest of the region is zero, nothing
  outside the region has changed, and the slice returned has length 32 and starts at
  those 32 bytes. The rounded length is the least multiple of \<open>P\<close> that is at least 32.
\<close>

theorem createCanary_guarded_region:
  assumes j: "j < 62" and acc: "accepts k (canary_calls (2 ^ j) (next_map k))"
  shows "(\<exists>c k'. createCanary (2 ^ j) k = Inr (c, k') \<and> canary_region (2 ^ j) k c k'
            \<and> len c = 32 \<and> drawn k' = drawn k + 32
            \<and> trace k' = trace k @
                 [Mmap (2 * 2 ^ j + roundToPageSize (2 ^ j) 32),
                  Madvise (next_map k + 2 ^ j) (roundToPageSize (2 ^ j) 32) 16,
                  Mlock (next_map k + 2 ^ j) (roundToPageSize (2 ^ j) 32),
                  Mprotect (next_map k) (2 ^ j) PROT_NONE,
                  Mprotect (next_map k + (2 ^ j + roundToPageSize (2 ^ j) 32)) (2 ^ j) PROT_NONE,
                  GetRandom (next_map k + (2 ^ j + roundToPageSize (2 ^ j) 32 - 32)) 32,
                  Mprotect (next_map k + 2 ^ j) (roundToPageSize (2 ^ j) 32) PROT_READ])
       \<and> (\<exists>c k'. createCanary_rev2 (2 ^ j) k = Inr (c, k') \<and> canary_region (2 ^ j) k c k'
            \<and> len c = 32 \<and> drawn k' = drawn k + 32
            \<and> trace k' = trace k @
                 [Mmap (2 * 2 ^ j + roundToPageSize (2 ^ j) 32),
                  Mprotect (next_map k) (2 ^ j) PROT_NONE,
                  Mprotect (next_map k + (2 ^ j + roundToPageSize (2 ^ j) 32)) (2 ^ j) PROT_NONE,
                  Mlock (next_map k + 2 ^ j) (roundToPageSize (2 ^ j) 32),
                  GetRandom (next_map k + (2 ^ j + roundToPageSize (2 ^ j) 32 - 32)) 32,
                  Mprotect (next_map k + 2 ^ j) (roundToPageSize (2 ^ j) 32) PROT_READ])
       \<and> 2 ^ j dvd sint (roundToPageSize (2 ^ j) 32)
       \<and> 32 \<le> sint (roundToPageSize (2 ^ j) 32)
       \<and> sint (roundToPageSize (2 ^ j) 32) < 32 + 2 ^ j
       \<and> sint (2 * 2 ^ j + roundToPageSize (2 ^ j) 32)
           = 2 * 2 ^ j + sint (roundToPageSize (2 ^ j) 32)"
proof -
  define L where "L = roundToPageSize (2 ^ j) 32"
  define base where "base = next_map k"
  note A = canary_arith [OF j, folded L_def]
  note r1 = createCanary_run [OF A(1) A(2) A(3) A(4) L_def base_def acc [folded base_def]]
  note r2 = createCanary_rev2_run [OF A(1) A(2) A(3) A(4) L_def base_def acc [folded base_def]]
  from r1 obtain c k' where 1: "createCanary (2 ^ j) k = Inr (c, k')" "canary_region (2 ^ j) k c k'"
     "trace k' = trace k @ [Mmap (2 * 2 ^ j + L), Madvise (base + 2 ^ j) L 16, Mlock (base + 2 ^ j) L,
          Mprotect base (2 ^ j) PROT_NONE, Mprotect (base + (2 ^ j + L)) (2 ^ j) PROT_NONE,
          GetRandom (base + (2 ^ j + L - 32)) 32, Mprotect (base + 2 ^ j) L PROT_READ]"
     "drawn k' = drawn k + 32"
    by blast
  from 1(2) have "len c = 32"
    by (simp add: canary_region_def Let_def getBytes_def)
  with 1 have g1: "\<exists>c k'. createCanary (2 ^ j) k = Inr (c, k') \<and> canary_region (2 ^ j) k c k'
            \<and> len c = 32 \<and> drawn k' = drawn k + 32
            \<and> trace k' = trace k @ [Mmap (2 * 2 ^ j + L), Madvise (base + 2 ^ j) L 16, Mlock (base + 2 ^ j) L,
          Mprotect base (2 ^ j) PROT_NONE, Mprotect (base + (2 ^ j + L)) (2 ^ j) PROT_NONE,
          GetRandom (base + (2 ^ j + L - 32)) 32, Mprotect (base + 2 ^ j) L PROT_READ]"
    by blast
  from r2 obtain c k' where 2: "createCanary_rev2 (2 ^ j) k = Inr (c, k')" "canary_region (2 ^ j) k c k'"
     "trace k' = trace k @ [Mmap (2 * 2 ^ j + L),
          Mprotect base (2 ^ j) PROT_NONE, Mprotect (base + (2 ^ j + L)) (2 ^ j) PROT_NONE, Mlock (base + 2 ^ j) L,
          GetRandom (base + (2 ^ j + L - 32)) 32, Mprotect (base + 2 ^ j) L PROT_READ]"
     "drawn k' = drawn k + 32"
    by blast
  from 2(2) have "len c = 32"
    by (simp add: canary_region_def Let_def getBytes_def)
  with 2 have g2: "\<exists>c k'. createCanary_rev2 (2 ^ j) k = Inr (c, k') \<and> canary_region (2 ^ j) k c k'
            \<and> len c = 32 \<and> drawn k' = drawn k + 32
            \<and> trace k' = trace k @ [Mmap (2 * 2 ^ j + L),
          Mprotect base (2 ^ j) PROT_NONE, Mprotect (base + (2 ^ j + L)) (2 ^ j) PROT_NONE, Mlock (base + 2 ^ j) L,
          GetRandom (base + (2 ^ j + L - 32)) 32, Mprotect (base + 2 ^ j) L PROT_READ]"
    by blast
  show ?thesis
    unfolding L_def [symmetric] base_def [symmetric]
    using g1 g2 A(5) A(2) A(6) A(7) by (intro conjI)
qed

theorem createCanary_guarded_region_witness:
  "(12::nat) < 62 \<and> accepts boot (canary_calls (2 ^ 12) (next_map boot))
   \<and> (\<exists>c k'. createCanary (2 ^ 12) boot = Inr (c, k')
         \<and> c = getBytes 73696 32
         \<and> prot_of k' 65536 = Some PROT_NONE
         \<and> prot_of k' 69632 = Some PROT_READ \<and> locked k' 69632
         \<and> prot_of k' 73728 = Some PROT_NONE
         \<and> mem k' 73696 = 1 \<and> mem k' 73695 = 0
         \<and> prot_of k' 77824 = None)"
proof -
  have R: "roundToPageSize 4096 32 = 4096"
    by (simp add: roundToPageSize_def)
  have h1: "(12::nat) < 62" by simp
  have h2: "accepts boot (canary_calls (2 ^ 12) (next_map boot))"
    by (simp add: accepts_def canary_calls_def Let_def boot_def)
  from createCanary_guarded_region [OF h1 h2]
  obtain c k' where run: "createCanary (2 ^ 12) boot = Inr (c, k')"
    and reg: "canary_region (2 ^ 12) boot c k'"
    by blast
  from reg have c: "c = getBytes 73696 32"
    by (simp add: canary_region_def Let_def R boot_def)
  from reg have a: "\<And>a.
           (in_range 65536 4096 a \<longrightarrow> prot_of k' a = Some PROT_NONE)
         \<and> (in_range 69632 4096 a \<longrightarrow> prot_of k' a = Some PROT_READ \<and> locked k' a)
         \<and> (in_range 73728 4096 a \<longrightarrow> prot_of k' a = Some PROT_NONE)
         \<and> (in_range 73696 32 a \<longrightarrow>
               in_range 69632 4096 a \<and> mem k' a = entropy boot (drawn boot + unat (a - 73696)))
         \<and> (in_range 65536 12288 a \<and> \<not> in_range 73696 32 a \<longrightarrow> mem k' a = 0)
         \<and> (in_range 65536 12288 a \<longleftrightarrow>
               in_range 65536 4096 a \<or> in_range 69632 4096 a \<or> in_range 73728 4096 a)
         \<and> (\<not> in_range 65536 12288 a \<longrightarrow>
               prot_of k' a = prot_of boot a \<and> mem k' a = mem boot a \<and> locked k' a = locked boot a)"
    by (simp add: canary_region_def Let_def R boot_def getBytes_def)
  have 1: "prot_of k' 65536 = Some PROT_NONE"
    using a [of 65536] by (simp add: in_range_def)
  have 2: "prot_of k' 69632 = Some PROT_READ \<and> locked k' 69632"
    using a [of 69632] by (simp add: in_range_def)
  have 3: "prot_of k' 73728 = Some PROT_NONE"
    using a [of 73728] by (simp add: in_range_def)
  have 4: "mem k' 73696 = 1"
    using a [of 73696] by (simp add: in_range_def boot_def)
  have 5: "mem k' 73695 = 0"
    using a [of 73695] by (simp add: in_range_def)
  have 6: "prot_of k' 77824 = None"
    using a [of 77824] by (simp add: in_range_def boot_def)
  from h1 h2 run c 1 2 3 4 5 6 show ?thesis by blast
qed

section \<open>Equality in constant-time style\<close>

lemma xor_zero_iff: "(x :: byte) XOR y = 0 \<longleftrightarrow> x = y"
proof
  assume "x XOR y = 0"
  then have "(x XOR y) XOR y = y" by simp
  then show "x = y" by (simp add: xor.assoc)
next
  assume "x = y"
  then show "x XOR y = 0" by simp
qed

lemma fold_or_xor_zero:
  "fold (\<lambda>(x, y) v. v OR (x XOR y)) ps (v :: byte) = 0 \<longleftrightarrow>
     v = 0 \<and> (\<forall>(x, y) \<in> set ps. x = y)"
proof (induction ps arbitrary: v)
  case Nil
  then show ?case by simp
next
  case (Cons p ps)
  obtain x y where p: "p = (x, y)" by (cases p)
  have "v OR (x XOR y) = 0 \<longleftrightarrow> v = 0 \<and> x = y"
    by (simp add: or_eq_0_iff xor_zero_iff)
  with Cons.IH [of "v OR (x XOR y)"] show ?case
    by (auto simp add: p)
qed

lemma constantTimeCompare_iff: "constantTimeCompare xs ys \<longleftrightarrow> xs = ys"
  by (auto simp add: constantTimeCompare_def fold_or_xor_zero list_eq_iff_zip_eq)

text \<open>
  Claim C4. On a live buffer whose data reads as the byte sequence \<open>xs\<close>, with an
  argument that reads as \<open>ys\<close>, \<open>EqualTo\<close> returns no error and the boolean it returns
  is true if and only if \<open>xs\<close> and \<open>ys\<close> are the same sequence: of the same length and
  with the same byte at every position.
\<close>

theorem EqualTo_iff_bitwise_equal:
  assumes live: "\<not> destroyed b"
    and xs: "load_bytes (buffer b) k = Inr xs"
    and ys: "load_bytes other k = Inr ys"
  shows "\<exists>r. EqualTo b other k = Inr (r, None)
     \<and> (r \<longleftrightarrow> xs = ys)
     \<and> (r \<longleftrightarrow> length xs = length ys \<and> (\<forall>i < length xs. xs ! i = ys ! i))"
  using assms
  by (auto simp add: EqualTo_def andThen_def constantTimeCompare_iff list_eq_iff_nth_eq)

theorem EqualTo_iff_bitwise_equal_witness:
  "\<not> destroyed \<lparr>buffer = getBytes 4096 4, readOnly = False, destroyed = False\<rparr>
   \<and> load_bytes (getBytes 4096 4) heap = Inr [116, 101, 115, 116]
   \<and> load_bytes (getBytes 4112 4) heap = Inr [116, 101, 115, 116]
   \<and> EqualTo \<lparr>buffer = getBytes 4096 4, readOnly = False, destroyed = False\<rparr>
        (getBytes 4112 4) heap = Inr (True, None)
   \<and> load_bytes (getBytes 4104 5) heap = Inr [116, 111, 97, 115, 116]
   \<and> EqualTo \<lparr>buffer = getBytes 4096 4, readOnly = False, destroyed = False\<rparr>
        (getBytes 4104 5) heap = Inr (False, None)"
proof -
  let ?b = "\<lparr>buffer = getBytes 4096 4, readOnly = False, destroyed = False\<rparr>"
  have live: "\<not> destroyed ?b" by simp
  have x: "load_bytes (buffer ?b) heap = Inr [116, 101, 115, 116]" by code_simp
  have y1: "load_bytes (getBytes 4112 4) heap = Inr [116, 101, 115, 116]" by code_simp
  have y2: "load_bytes (getBytes 4104 5) heap = Inr [116, 111, 97, 115, 116]" by code_simp
  from EqualTo_iff_bitwise_equal [OF live x y1]
  have e1: "EqualTo ?b (getBytes 4112 4) heap = Inr (True, None)" by auto
  from EqualTo_iff_bitwise_equal [OF live x y2]
  have e2: "EqualTo ?b (getBytes 4104 5) heap = Inr (False, None)" by auto
  from live x y1 e1 y2 e2 show ?thesis by simp
qed

section \<open>Destroyed buffers\<close>

lemma Destroy_result:
  assumes "Destroy P K b k = Inr (b', k')" and "\<not> destroyed b"
  shows "b' = b\<lparr>buffer := nil_slice, readOnly := False, destroyed := True\<rparr>"
  using assms
  by (auto simp add: Destroy_def andThen_def Let_def split: sum.splits prod.splits if_splits)

text \<open>The operations establish and keep \<open>container_inv\<close>.\<close>

lemma New_inv:
  assumes "New P K n k = Inr (Inr b, k')"
  shows "container_inv b"
  using assms
  by (auto simp add: New_def andThen_def Let_def container_inv_def
      split: sum.splits prod.splits if_splits)

lemma Destroy_inv:
  assumes "container_inv b" and "Destroy P K b k = Inr (b', k')"
  shows "container_inv b'"
proof (cases "destroyed b")
  case True
  with assms show ?thesis by (simp add: Destroy_def)
next
  case False
  from Destroy_result [OF assms(2) False] show ?thesis
    by (simp add: container_inv_def)
qed

lemma MarkAsReadOnly_inv:
  assumes "container_inv b" and "MarkAsReadOnly P b k = Inr (e, b', k')"
  shows "container_inv b'"
  using assms
  by (auto simp add: MarkAsReadOnly_def andThen_def container_inv_def
      split: sum.splits prod.splits if_splits)

lemma MarkAsReadWrite_inv:
  assumes "container_inv b" and "MarkAsReadWrite P b k = Inr (e, b', k')"
  shows "container_inv b'"
  using assms
  by (auto simp add: MarkAsReadWrite_def andThen_def container_inv_def
      split: sum.splits prod.splits if_splits)

text \<open>
  Claim C1. When \<open>Destroy\<close> returns on a buffer, the buffer has no data (the nil slice,
  of length 0), is destroyed and is not read-only. From then on \<open>Copy\<close>, \<open>Move\<close>,
  \<open>MarkAsReadOnly\<close>, \<open>MarkAsReadWrite\<close>, \<open>EqualTo\<close> and \<open>Trim\<close> return \<open>ErrDestroyed\<close> and
  leave the buffer and the machine as they are, and a second \<open>Destroy\<close> returns with
  both unchanged; \<open>Destroy\<close> has no error result at all.
\<close>

theorem Destroy_then_ErrDestroyed:
  assumes inv: "container_inv b" and d: "Destroy P K b k = Inr (b', k')"
  shows "buffer b' = nil_slice \<and> len (buffer b') = 0 \<and> destroyed b' \<and> \<not> readOnly b'
     \<and> Copy b' src k' = Inr (Some ErrDestroyed, k')
     \<and> Move b' src k' = Inr (Some ErrDestroyed, k')
     \<and> MarkAsReadOnly P b' k' = Inr (Some ErrDestroyed, b', k')
     \<and> MarkAsReadWrite P b' k' = Inr (Some ErrDestroyed, b', k')
     \<and> EqualTo b' other k' = Inr (False, Some ErrDestroyed)
     \<and> Trim P K b' offset size' k' = Inr (Inl ErrDestroyed, k')
     \<and> Destroy P K b' k' = Inr (b', k')"
proof -
  have s: "buffer b' = nil_slice \<and> destroyed b' \<and> \<not> readOnly b'"
  proof (cases "destroyed b")
    case True
    with d have "b' = b" by (simp add: Destroy_def)
    with True inv show ?thesis by (simp add: container_inv_def)
  next
    case False
    from Destroy_result [OF d False] show ?thesis by simp
  qed
  then have dd: "destroyed b'" by simp
  from s have l: "len (buffer b') = 0" by (simp add: nil_slice_def)
  have 1: "Copy b' src k' = Inr (Some ErrDestroyed, k')" using dd by (simp add: Copy_def)
  have 2: "Move b' src k' = Inr (Some ErrDestroyed, k')"
    using dd by (simp add: Move_def Copy_def andThen_def)
  have 3: "MarkAsReadOnly P b' k' = Inr (Some ErrDestroyed, b', k')"
    using dd by (simp add: MarkAsReadOnly_def)
  have 4: "MarkAsReadWrite P b' k' = Inr (Some ErrDestroyed, b', k')"
    using dd by (simp add: MarkAsReadWrite_def)
  have 5: "EqualTo b' other k' = Inr (False, Some ErrDestroyed)"
    using dd by (simp add: EqualTo_def)
  have 6: "Trim P K b' offset size' k' = Inr (Inl ErrDestroyed, k')"
    using dd by (simp add: Trim_def)
  have 7: "Destroy P K b' k' = Inr (b', k')"
    using dd by (simp add: Destroy_def)
  from s l 1 2 3 4 5 6 7 show ?thesis by simp
qed

section \<open>Wiping and copying\<close>

lemma sint_succ_64:
  "sint (i :: gint) < sint (n :: gint) \<Longrightarrow> sint (i + 1) = sint i + 1"
proof -
  assume lt: "sint i < sint n"
  have "sint n < 2 ^ 63" using sint_lt [of n] by simp
  moreover have "- (2 ^ 63) \<le> sint i" using sint_ge [of i] by simp
  ultimately show ?thesis
    using lt sint_add_64 [of i 1] by simp
qed

lemma uint_eq_sint_iff:
  "0 \<le> sint (i :: gint) \<Longrightarrow> (uint (w :: gint) = sint i) \<longleftrightarrow> (w = i)"
  by (metis uint_of_nonneg word_uint_eqI)

lemma wipeLoop_ok:
  assumes "\<forall>a. in_range (addr buf) (len buf) a \<longrightarrow> writable k a"
    and "0 \<le> sint i" and "sint i \<le> sint (len buf)"
  shows "wipeLoop buf i k =
     Inr (k\<lparr>mem := (\<lambda>a. if in_range (addr buf) (len buf) a \<and> sint i \<le> uint (a - addr buf)
                         then 0 else mem k a)\<rparr>)"
  using assms
proof (induction buf i k rule: wipeLoop.induct)
  case (1 buf i k)
  have n0: "0 \<le> sint (len buf)" using "1.prems" by simp
  note rb = in_range_base [OF n0, of "addr buf"]
  show ?case
  proof (cases "sint i < sint (len buf)")
    case True
    let ?a0 = "addr buf + i"
    have ui: "uint i = sint i" using "1.prems"(2) by (rule uint_of_nonneg)
    have "in_range (addr buf) (len buf) ?a0"
      using True by (simp add: rb ui)
    then have w0: "writable k ?a0" using "1.prems"(1) by blast
    define k1 where "k1 = k\<lparr>mem := (mem k)(?a0 := 0)\<rparr>"
    have st: "store_byte ?a0 0 k = Inr k1"
      using w0 by (simp add: store_byte_def k1_def)
    have s1: "sint (i + 1) = sint i + 1" using True by (rule sint_succ_64)
    have w1: "\<forall>a. in_range (addr buf) (len buf) a \<longrightarrow> writable k1 a"
      using "1.prems"(1) by (simp add: writable_def k1_def)
    have ih: "wipeLoop buf (i + 1) k1 =
       Inr (k1\<lparr>mem := (\<lambda>a. if in_range (addr buf) (len buf) a \<and> sint (i + 1) \<le> uint (a - addr buf)
                         then 0 else mem k1 a)\<rparr>)"
      using "1.IH" [OF True st w1] "1.prems"(2) True s1 by simp
    have eq: "(\<lambda>a. if in_range (addr buf) (len buf) a \<and> sint (i + 1) \<le> uint (a - addr buf)
                         then 0 else mem k1 a)
        = (\<lambda>a. if in_range (addr buf) (len buf) a \<and> sint i \<le> uint (a - addr buf)
                         then 0 else mem k a)"
    proof (rule ext)
      fix a
      have e: "a = ?a0 \<longleftrightarrow> uint (a - addr buf) = sint i"
      proof -
        have "a = ?a0 \<longleftrightarrow> a - addr buf = i" by auto
        then show ?thesis
          using uint_eq_sint_iff [OF "1.prems"(2), of "a - addr buf"] by simp
      qed
      show "(if in_range (addr buf) (len buf) a \<and> sint (i + 1) \<le> uint (a - addr buf)
                         then 0 else mem k1 a)
        = (if in_range (addr buf) (len buf) a \<and> sint i \<le> uint (a - addr buf)
                         then 0 else mem k a)"
        using True by (auto simp add: s1 k1_def e rb)
    qed
    have "wipeLoop buf i k = wipeLoop buf (i + 1) k1"
      using True st by (subst wipeLoop.simps) simp
    also note ih
    finally show ?thesis
      by (simp add: eq k1_def)
  next
    case False
    have "(\<lambda>a. if in_range (addr buf) (len buf) a \<and> sint i \<le> uint (a - addr buf)
                         then 0 else mem k a) = mem k"
      using False by (intro ext) (auto simp add: rb)
    then show ?thesis
      using False by (subst wipeLoop.simps) simp
  qed
qed

lemma wipeBytes_ok:
  assumes "\<forall>a. in_range (addr buf) (len buf) a \<longrightarrow> writable k a" and "0 \<le> sint (len buf)"
  shows "wipeBytes buf k =
     Inr (k\<lparr>mem := (\<lambda>a. if in_range (addr buf) (len buf) a then 0 else mem k a)\<rparr>)"
  using wipeLoop_ok [OF assms(1), of 0] assms(2) by (simp add: wipeBytes_def)

lemma load_bytes_ok:
  assumes "\<forall>a. in_range (addr s) (len s) a \<longrightarrow> readable k a" and "0 \<le> sint (len s)"
  shows "load_bytes s k = Inr (map (\<lambda>i. mem k (addr s + of_nat i)) (offsets (len s)))"
proof -
  have "\<forall>i. i < nat (sint (len s)) \<longrightarrow> readable k (addr s + of_nat i)"
    using assms in_range_of_nat [of "len s" _ "addr s"] by blast
  then show ?thesis
    by (simp add: load_bytes_def list_all_offsets)
qed

lemma length_offsets: "length (offsets n) = nat (sint n)"
  by (simp add: offsets_def)

lemma nth_offsets: "i < nat (sint n) \<Longrightarrow> offsets n ! i = i"
  by (simp add: offsets_def)

lemma copy_bytes_ok:
  assumes m: "m = (if sint (len src) < sint (len dst) then len src else len dst)"
    and m0: "0 \<le> sint m"
    and r: "\<forall>a. in_range (addr src) m a \<longrightarrow> readable k a"
    and w: "\<forall>a. in_range (addr dst) m a \<longrightarrow> writable k a"
  shows "copy_bytes dst src k =
     Inr (k\<lparr>mem := (\<lambda>a. if in_range (addr dst) m a
                         then mem k (addr src + (a - addr dst)) else mem k a)\<rparr>)"
proof -
  define bs where "bs = map (\<lambda>i. mem k (addr src + of_nat i)) (offsets m)"
  have l: "load_bytes (src\<lparr>len := m\<rparr>) k = Inr bs"
    using load_bytes_ok [of "src\<lparr>len := m\<rparr>" k] r m0 by (simp add: bs_def)
  have wl: "list_all (\<lambda>i. writable k (addr dst + of_nat i)) (offsets m)"
    using w in_range_of_nat [OF m0, of _ "addr dst"] by (simp add: list_all_offsets)
  have eq: "(\<lambda>a. if in_range (addr dst) m a then bs ! unat (a - addr dst) else mem k a)
      = (\<lambda>a. if in_range (addr dst) m a
                         then mem k (addr src + (a - addr dst)) else mem k a)"
  proof (rule ext)
    fix a
    show "(if in_range (addr dst) m a then bs ! unat (a - addr dst) else mem k a)
      = (if in_range (addr dst) m a then mem k (addr src + (a - addr dst)) else mem k a)"
    proof (cases "in_range (addr dst) m a")
      case True
      then have "uint (a - addr dst) < sint m"
        using m0 by (simp add: in_range_base)
      moreover have "int (unat (a - addr dst)) = uint (a - addr dst)"
        by (rule uint_nat [symmetric])
      ultimately have "int (unat (a - addr dst)) < sint m"
        by (simp only:)
      then have lt: "unat (a - addr dst) < nat (sint m)"
        by (simp only: zless_nat_eq_int_zless)
      have "unat (a - addr dst) < length (offsets m)"
        using lt by (simp only: length_offsets)
      then have "bs ! unat (a - addr dst)
          = mem k (addr src + of_nat (offsets m ! unat (a - addr dst)))"
        unfolding bs_def by (rule nth_map)
      also have "\<dots> = mem k (addr src + of_nat (unat (a - addr dst)))"
        by (simp only: nth_offsets [OF lt])
      also have "\<dots> = mem k (addr src + (a - addr dst))"
        by simp
      finally show ?thesis using True by (simp only: if_True)
    next
      case False
      then show ?thesis by simp
    qed
  qed
  show ?thesis
    unfolding copy_bytes_def Let_def m [symmetric]
    using l wl by (simp add: andThen_def eq)
qed

lemma in_range_mono:
  assumes "in_range base m a" and "0 \<le> sint m" and "sint m \<le> sint n"
  shows "in_range base n a"
proof -
  have "0 \<le> sint n" using assms(2,3) by simp
  from assms(1) in_range_base [OF assms(2), of base a] in_range_base [OF this, of base a] assms(3)
  show ?thesis by simp
qed

text \<open>
  Claim C3. On a live, writable buffer whose data and whose argument \<open>src\<close> lie in
  readable and writable memory, with \<open>m = min (len data) (len src)\<close>: \<open>Copy\<close> makes the
  first \<open>m\<close> bytes of the data equal to the first \<open>m\<close> bytes that \<open>src\<close> held and writes
  nothing else; \<open>Move\<close> does the same and then zeroes every one of the \<open>len src\<close> bytes
  of \<open>src\<close>, and nothing but those.
\<close>

theorem Move_copies_then_wipes:
  assumes live: "\<not> destroyed b" and rw: "\<not> readOnly b"
    and n0: "0 \<le> sint (len (buffer b))" and s0: "0 \<le> sint (len src)"
    and m: "m = (if sint (len src) < sint (len (buffer b)) then len src else len (buffer b))"
    and data_rw: "\<forall>a. in_range (addr (buffer b)) (len (buffer b)) a \<longrightarrow>
                     prot_of k a = Some PROT_READ_WRITE"
    and src_rw: "\<forall>a. in_range (addr src) (len src) a \<longrightarrow> prot_of k a = Some PROT_READ_WRITE"
  shows "\<exists>k1 k2. Copy b src k = Inr (None, k1)
      \<and> (\<forall>a. in_range (addr (buffer b)) m a \<longrightarrow>
              mem k1 a = mem k (addr src + (a - addr (buffer b))))
      \<and> (\<forall>a. \<not> in_range (addr (buffer b)) m a \<longrightarrow> mem k1 a = mem k a)
      \<and> load_bytes (getBytes (addr (buffer b)) m) k1 = load_bytes (getBytes (addr src) m) k
      \<and> Move b src k = Inr (None, k2)
      \<and> (\<forall>a. in_range (addr src) (len src) a \<longrightarrow> mem k2 a = 0)
      \<and> (\<forall>a. \<not> in_range (addr src) (len src) a \<longrightarrow> mem k2 a = mem k1 a)
      \<and> load_bytes src k2 = Inr (replicate (nat (sint (len src))) 0)
      \<and> prot_of k2 = prot_of k \<and> trace k2 = trace k"
proof -
  let ?d = "buffer b"
  have m0: "0 \<le> sint m" using n0 s0 by (simp add: m)
  have ms: "sint m \<le> sint (len src)" and md: "sint m \<le> sint (len ?d)"
    by (simp_all add: m)
  have r: "\<forall>a. in_range (addr src) m a \<longrightarrow> readable k a"
    using src_rw in_range_mono [OF _ m0 ms] by (auto simp add: readable_def)
  have w: "\<forall>a. in_range (addr ?d) m a \<longrightarrow> writable k a"
    using data_rw in_range_mono [OF _ m0 md] by (auto simp add: writable_def)
  define k1 where "k1 = k\<lparr>mem := (\<lambda>a. if in_range (addr ?d) m a
                         then mem k (addr src + (a - addr ?d)) else mem k a)\<rparr>"
  have cb: "copy_bytes ?d src k = Inr k1"
    unfolding k1_def using m m0 r w by (rule copy_bytes_ok)
  have c: "Copy b src k = Inr (None, k1)"
    using live rw cb by (simp add: Copy_def andThen_def)
  have c1: "\<forall>a. in_range (addr ?d) m a \<longrightarrow> mem k1 a = mem k (addr src + (a - addr ?d))"
    by (simp add: k1_def)
  have c2: "\<forall>a. \<not> in_range (addr ?d) m a \<longrightarrow> mem k1 a = mem k a"
    by (simp add: k1_def)
  have r1: "\<forall>a. in_range (addr (getBytes (addr ?d) m)) (len (getBytes (addr ?d) m)) a \<longrightarrow> readable k1 a"
    using data_rw in_range_mono [OF _ m0 md] by (auto simp add: readable_def k1_def getBytes_def)
  have r2: "\<forall>a. in_range (addr (getBytes (addr src) m)) (len (getBytes (addr src) m)) a \<longrightarrow> readable k a"
    using r by (simp add: getBytes_def)
  have lm: "0 \<le> sint (len (getBytes (addr ?d) m))" "0 \<le> sint (len (getBytes (addr src) m))"
    using m0 by (simp_all add: getBytes_def)
  have "\<And>i. i \<in> set (offsets m) \<Longrightarrow> mem k1 (addr ?d + of_nat i) = mem k (addr src + of_nat i)"
  proof -
    fix i assume "i \<in> set (offsets m)"
    then have "i < nat (sint m)" by (simp add: offsets_def)
    then have "in_range (addr ?d) m (addr ?d + of_nat i)"
      using m0 by (intro in_range_of_nat)
    then show "mem k1 (addr ?d + of_nat i) = mem k (addr src + of_nat i)"
      by (simp add: k1_def)
  qed
  then have c3: "load_bytes (getBytes (addr ?d) m) k1 = load_bytes (getBytes (addr src) m) k"
    unfolding load_bytes_ok [OF r1 lm(1)] load_bytes_ok [OF r2 lm(2)]
    by (simp add: getBytes_def)
  define k2 where "k2 = k1\<lparr>mem := (\<lambda>a. if in_range (addr src) (len src) a then 0 else mem k1 a)\<rparr>"
  have w1: "\<forall>a. in_range (addr src) (len src) a \<longrightarrow> writable k1 a"
    using src_rw by (simp add: writable_def k1_def)
  have wb: "wipeBytes src k1 = Inr k2"
    unfolding k2_def using w1 s0 by (rule wipeBytes_ok)
  have mv: "Move b src k = Inr (None, k2)"
    using c wb by (simp add: Move_def andThen_def)
  have m1: "\<forall>a. in_range (addr src) (len src) a \<longrightarrow> mem k2 a = 0"
    by (simp add: k2_def)
  have m2: "\<forall>a. \<not> in_range (addr src) (len src) a \<longrightarrow> mem k2 a = mem k1 a"
    by (simp add: k2_def)
  have r3: "\<forall>a. in_range (addr src) (len src) a \<longrightarrow> readable k2 a"
    using src_rw by (simp add: readable_def k1_def k2_def)
  have "\<And>i. i \<in> set (offsets (len src)) \<Longrightarrow> mem k2 (addr src + of_nat i) = 0"
  proof -
    fix i assume "i \<in> set (offsets (len src))"
    then have "i < nat (sint (len src))" by (simp add: offsets_def)
    then have "in_range (addr src) (len src) (addr src + of_nat i)"
      using s0 by (intro in_range_of_nat)
    then show "mem k2 (addr src + of_nat i) = 0"
      using m1 by blast
  qed
  then have "map (\<lambda>i. mem k2 (addr src + of_nat i)) (offsets (len src))
     = map (\<lambda>i. 0) (offsets (len src))"
    by (intro map_cong) simp_all
  then have m3: "load_bytes src k2 = Inr (replicate (nat (sint (len src))) 0)"
    unfolding load_bytes_ok [OF r3 s0]
    by (simp add: map_replicate_const length_offsets)
  have p: "prot_of k2 = prot_of k \<and> trace k2 = trace k"
    by (simp add: k1_def k2_def)
  from c c1 c2 c3 mv m1 m2 m3 p show ?thesis by blast
qed

lemma heap_page:
  assumes "in_range (4096 + off) n a" and "0 \<le> sint off" and "0 \<le> sint n"
    and "sint off + sint n \<le> 4096"
  shows "prot_of heap a = Some PROT_READ_WRITE"
proof -
  have "sint off + sint n < 2 ^ 63" using assms(4) by simp
  from assms(1) in_range_offset [OF assms(2,3) this, of 4096 a]
  have "uint (a - 4096) < 4096" using assms(4) by simp
  then have "in_range 4096 4096 a"
    by (simp add: in_range_base)
  then show ?thesis by (simp add: heap_def)
qed

theorem Move_copies_then_wipes_witness:
  "\<exists>k1 k2.
     Copy \<lparr>buffer = getBytes 4096 4, readOnly = False, destroyed = False\<rparr>
       (getBytes 4104 5) heap = Inr (None, k1)
   \<and> mem k1 4096 = 116 \<and> mem k1 4097 = 111 \<and> mem k1 4098 = 97 \<and> mem k1 4099 = 115
   \<and> mem k1 4108 = 116
   \<and> Move \<lparr>buffer = getBytes 4096 4, readOnly = False, destroyed = False\<rparr>
       (getBytes 4104 5) heap = Inr (None, k2)
   \<and> load_bytes (getBytes 4104 5) k2 = Inr [0, 0, 0, 0, 0]
   \<and> mem k2 4097 = 111 \<and> mem k2 4112 = 116"
proof -
  let ?b = "\<lparr>buffer = getBytes 4096 4, readOnly = False, destroyed = False\<rparr>"
  let ?src = "getBytes 4104 5"
  have live: "\<not> destroyed ?b" and rw: "\<not> readOnly ?b" by simp_all
  have n0: "0 \<le> sint (len (buffer ?b))" and s0: "0 \<le> sint (len ?src)"
    by (simp_all add: getBytes_def)
  have m: "(4 :: gint) = (if sint (len ?src) < sint (len (buffer ?b)) then len ?src
                          else len (buffer ?b))"
    by (simp add: getBytes_def)
  have d: "\<forall>a. in_range (addr (buffer ?b)) (len (buffer ?b)) a \<longrightarrow>
                     prot_of heap a = Some PROT_READ_WRITE"
    using heap_page [of 0 4] by (simp add: getBytes_def)
  have s: "\<forall>a. in_range (addr ?src) (len ?src) a \<longrightarrow> prot_of heap a = Some PROT_READ_WRITE"
    using heap_page [of 8 5] by (simp add: getBytes_def)
  from Move_copies_then_wipes [OF live rw n0 s0 m d s]
  obtain k1 k2 where c: "Copy ?b ?src heap = Inr (None, k1)"
    and c1: "\<forall>a. in_range (addr (buffer ?b)) 4 a \<longrightarrow>
              mem k1 a = mem heap (addr ?src + (a - addr (buffer ?b)))"
    and c2: "\<forall>a. \<not> in_range (addr (buffer ?b)) 4 a \<longrightarrow> mem k1 a = mem heap a"
    and mv: "Move ?b ?src heap = Inr (None, k2)"
    and m2: "\<forall>a. \<not> in_range (addr ?src) (len ?src) a \<longrightarrow> mem k2 a = mem k1 a"
    and m3: "load_bytes ?src k2 = Inr (replicate (nat (sint (len ?src))) 0)"
    by blast
  have h: "mem heap 4104 = 116" "mem heap 4105 = 111" "mem heap 4106 = 97"
    "mem heap 4107 = 115" "mem heap 4108 = 116" "mem heap 4112 = 116"
    by (simp_all add: heap_def heap_bytes_def in_range_def boot_def)
  have a1: "mem k1 4096 = 116" using c1 [rule_format, of 4096] h
    by (simp add: getBytes_def in_range_def)
  have a2: "mem k1 4097 = 111" using c1 [rule_format, of 4097] h
    by (simp add: getBytes_def in_range_def)
  have a3: "mem k1 4098 = 97" using c1 [rule_format, of 4098] h
    by (simp add: getBytes_def in_range_def)
  have a4: "mem k1 4099 = 115" using c1 [rule_format, of 4099] h
    by (simp add: getBytes_def in_range_def)
  have a5: "mem k1 4108 = 116" using c2 [rule_format, of 4108] h
    by (simp add: getBytes_def in_range_def)
  have a6: "mem k1 4112 = 116" using c2 [rule_format, of 4112] h
    by (simp add: getBytes_def in_range_def)
  have b1: "mem k2 4097 = 111" using m2 [rule_format, of 4097] a2
    by (simp add: getBytes_def in_range_def)
  have b2: "mem k2 4112 = 116" using m2 [rule_format, of 4112] a6
    by (simp add: getBytes_def in_range_def)
  have b3: "load_bytes ?src k2 = Inr [0, 0, 0, 0, 0]"
    using m3 by (simp add: getBytes_def numeral_eq_Suc)
  from c a1 a2 a3 a4 a5 mv b3 b1 b2 show ?thesis by blast
qed

section \<open>Creating and destroying a buffer\<close>

text \<open>The places of the canary copy and of the data inside a region.\<close>

lemma buffer_offsets:
  fixes P L n :: gint
  assumes P0: "0 < sint P" and n0: "0 < sint n" and Ln: "sint n + 32 \<le> sint L"
   and PL: "sint (P + L) = sint P + sint L"
  shows "sint (L - n) = sint L - sint n"
    and "sint (L - n - 32) = sint L - sint n - 32"
    and "sint (P + (L - n)) = sint P + sint L - sint n"
    and "sint (P + (L - n - 32)) = sint P + sint L - sint n - 32"
proof -
  have lt: "sint P + sint L < 2 ^ 63" using sint_lt [of "P + L"] PL by simp
  show 1: "sint (L - n) = sint L - sint n"
    using sint_sub_64 [of L n] n0 Ln lt P0 by simp
  show 2: "sint (L - n - 32) = sint L - sint n - 32"
    using sint_sub_64 [of "L - n" 32] 1 n0 Ln lt P0 by simp
  show "sint (P + (L - n)) = sint P + sint L - sint n"
    using sint_add_64 [of P "L - n"] 1 n0 Ln lt P0 by simp
  show "sint (P + (L - n - 32)) = sint P + sint L - sint n - 32"
    using sint_add_64 [of P "L - n - 32"] 2 n0 Ln lt P0 by simp
qed

lemma buffer_ranges:
  fixes P L n :: gint
  assumes P0: "0 < sint P" and n0: "0 < sint n" and Ln: "sint n + 32 \<le> sint L"
   and PL: "sint (P + L) = sint P + sint L"
  shows "in_range (base + (P + (L - n - 32))) 32 a \<longleftrightarrow>
           sint P + sint L - sint n - 32 \<le> uint (a - base)
           \<and> uint (a - base) < sint P + sint L - sint n"
    and "in_range (base + (P + (L - n))) n a \<longleftrightarrow>
           sint P + sint L - sint n \<le> uint (a - base) \<and> uint (a - base) < sint P + sint L"
proof -
  note O = buffer_offsets [OF P0 n0 Ln PL]
  have lt: "sint P + sint L < 2 ^ 63" using sint_lt [of "P + L"] PL by simp
  have "in_range (base + (P + (L - n - 32))) 32 a \<longleftrightarrow>
     sint (P + (L - n - 32)) \<le> uint (a - base)
     \<and> uint (a - base) < sint (P + (L - n - 32)) + sint (32 :: gint)"
    using P0 n0 Ln lt by (intro in_range_offset) (simp_all add: O)
  then show "in_range (base + (P + (L - n - 32))) 32 a \<longleftrightarrow>
           sint P + sint L - sint n - 32 \<le> uint (a - base)
           \<and> uint (a - base) < sint P + sint L - sint n"
    by (simp add: O)
  have "in_range (base + (P + (L - n))) n a \<longleftrightarrow>
     sint (P + (L - n)) \<le> uint (a - base) \<and> uint (a - base) < sint (P + (L - n)) + sint n"
    using P0 n0 Ln lt by (intro in_range_offset) (simp_all add: O)
  then show "in_range (base + (P + (L - n))) n a \<longleftrightarrow>
           sint P + sint L - sint n \<le> uint (a - base) \<and> uint (a - base) < sint P + sint L"
    by (simp add: O)
qed

lemma New_run:
  fixes P L n :: gint
  assumes P0: "0 < sint P" and n0: "0 < sint n" and Ln: "sint n + 32 \<le> sint L"
   and PL: "sint (P + L) = sint P + sint L"
   and T: "sint (2 * P + L) = 2 * sint P + sint L"
   and L: "L = roundToPageSize P (n + 32)"
   and base: "base = next_map k"
   and acc: "accepts k (new_calls P base n)"
   and K32: "len K = 32"
   and Kr: "\<forall>a. in_range (addr K) 32 a \<longrightarrow> readable k a \<and> \<not> in_range base (2 * P + L) a"
  shows "\<exists>b k'. New P K n k = Inr (Inr b, k')
     \<and> buffer b = getBytes (layout_data_addr P base n) n
     \<and> \<not> readOnly b \<and> \<not> destroyed b
     \<and> guarded P K b k'
     \<and> fails k' = fails k \<and> next_map k' = base + (2 * P + L)
     \<and> (\<forall>a. in_range (addr (buffer b)) n a \<longrightarrow> mem k' a = 0)
     \<and> (\<forall>a. \<not> in_range base (2 * P + L) a \<longrightarrow>
            prot_of k' a = prot_of k a \<and> mem k' a = mem k a \<and> locked k' a = locked k a)
     \<and> (\<forall>a. in_range base P a \<or> in_range (base + (P + L)) P a \<longrightarrow>
            prot_of k' a = Some PROT_NONE)
     \<and> (\<forall>a. in_range (base + P) L a \<longrightarrow> locked k' a)"
proof -
  have x0: "0 \<le> sint n + 32" using n0 by simp
  note R = region_ranges [OF P0 Ln x0 PL T, of base] buffer_ranges [OF P0 n0 Ln PL, of base]
  note O = buffer_offsets [OF P0 n0 Ln PL]
  from acc have f:
    "fails k (Mmap (2 * P + L)) = None"
    "fails k (Mlock (base + P) L) = None"
    "fails k (Mprotect base P PROT_NONE) = None"
    "fails k (Mprotect (base + (P + L)) P PROT_NONE) = None"
    by (simp_all add: accepts_def new_calls_def Let_def L)
  define memory where "memory = getBytes base (2 * P + L)"
  define k1 where "k1 = k\<lparr>prot_of := (\<lambda>a. if in_range (next_map k) (2 * P + L) a then Some PROT_READ_WRITE else prot_of k a),
       locked := (\<lambda>a. if in_range (next_map k) (2 * P + L) a then False else locked k a),
       dontdump := (\<lambda>a. if in_range (next_map k) (2 * P + L) a then False else dontdump k a),
       mem := (\<lambda>a. if in_range (next_map k) (2 * P + L) a then 0 else mem k a),
       next_map := next_map k + (2 * P + L),
       trace := trace k @ [Mmap (2 * P + L)]\<rparr>"
  have a1: "Alloc (2 * P + L) k = Inr (memory, k1)"
    unfolding memory_def k1_def base using f(1) by (rule Alloc_ok)
  have fk1: "fails k1 = fails k" by (simp add: k1_def)
  define inner where "inner = \<lparr>addr = base + P, len = L, cap = 2 * P + L - P\<rparr>"
  have i1: "slice_of memory P (P + L) = Inr inner"
    using P0 Ln n0 PL T by (simp add: slice_of_def memory_def getBytes_def inner_def)
  define k2 where "k2 = k1\<lparr>locked := (\<lambda>a. if in_range (base + P) L a then True else locked k1 a),
       dontdump := (\<lambda>a. if fails k1 (Madvise (base + P) L 16) = None
                             \<and> in_range (base + P) L a then True else dontdump k1 a),
       trace := trace k1 @ [Madvise (base + P) L 16, Mlock (base + P) L]\<rparr>"
  have a2: "Lock inner k1 = Inr ((), k2)"
  proof -
    have "fails k1 (Mlock (addr inner) (len inner)) = None"
      using f(2) by (simp add: fk1 inner_def)
    from Lock_ok [OF this] show ?thesis by (simp add: k2_def inner_def)
  qed
  have fk2: "fails k2 = fails k" by (simp add: k2_def fk1)
  define front where "front = \<lparr>addr = base, len = P, cap = 2 * P + L\<rparr>"
  have i2: "slice_of memory 0 P = Inr front"
    using P0 Ln n0 PL T by (simp add: slice_of_def memory_def getBytes_def front_def)
  define k3 where "k3 = k2\<lparr>prot_of := (\<lambda>a. if in_range base P a
                       then map_option (\<lambda>_. PROT_NONE) (prot_of k2 a) else prot_of k2 a),
       trace := trace k2 @ [Mprotect base P PROT_NONE]\<rparr>"
  have a3: "Protect front False False k2 = Inr ((), k3)"
  proof -
    have "fails k2 (Mprotect (addr front) (len front)
       (if False \<and> False then PROT_READ_WRITE else if False then PROT_READ
        else if False then PROT_WRITE else PROT_NONE)) = None"
      using f(3) by (simp add: fk2 front_def)
    from Protect_ok [OF this] show ?thesis by (simp add: k3_def front_def)
  qed
  have fk3: "fails k3 = fails k" by (simp add: k3_def fk2)
  define rear where "rear = \<lparr>addr = base + (P + L), len = P, cap = 2 * P + L - (P + L)\<rparr>"
  have i3: "slice_from memory (P + L) = Inr rear"
    using P0 Ln n0 PL T by (simp add: slice_from_def memory_def getBytes_def rear_def)
  define k4 where "k4 = k3\<lparr>prot_of := (\<lambda>a. if in_range (base + (P + L)) P a
                       then map_option (\<lambda>_. PROT_NONE) (prot_of k3 a) else prot_of k3 a),
       trace := trace k3 @ [Mprotect (base + (P + L)) P PROT_NONE]\<rparr>"
  have a4: "Protect rear False False k3 = Inr ((), k4)"
  proof -
    have "fails k3 (Mprotect (addr rear) (len rear)
       (if False \<and> False then PROT_READ_WRITE else if False then PROT_READ
        else if False then PROT_WRITE else PROT_NONE)) = None"
      using f(4) by (simp add: fk3 rear_def)
    from Protect_ok [OF this] show ?thesis by (simp add: k4_def rear_def)
  qed
  have fk4: "fails k4 = fails k" by (simp add: k4_def fk3)
  have p4: "\<And>a. prot_of k4 a =
      (if in_range (base + (P + L)) P a then Some PROT_NONE
       else if in_range base P a then Some PROT_NONE
       else if in_range base (2 * P + L) a then Some PROT_READ_WRITE
       else prot_of k a)"
    using P0 Ln n0 by (auto simp add: k4_def k3_def k2_def k1_def R(1-4) simp flip: base)
  have m4: "\<And>a. mem k4 a = (if in_range base (2 * P + L) a then 0 else mem k a)"
    by (simp add: k4_def k3_def k2_def k1_def flip: base)
  have l4: "\<And>a. locked k4 a = (if in_range (base + P) L a then True
       else if in_range base (2 * P + L) a then False else locked k a)"
    by (simp add: k4_def k3_def k2_def k1_def flip: base)
  have cap_inner: "sint (2 * P + L - P) = sint P + sint L"
  proof -
    have "2 * P + L - P = P + L" by simp
    then show ?thesis by (simp only: PL)
  qed
  define slot where "slot = \<lparr>addr = base + (P + (L - n - 32)), len = 32,
      cap = 2 * P + L - P - (L - n - 32)\<rparr>"
  have i5: "slice_of inner (L - n - 32) (L - n) = Inr slot"
    using P0 Ln n0 O cap_inner
    by (simp add: slice_of_def inner_def slot_def add.assoc)
  have mK: "(32 :: gint) = (if sint (len K) < sint (len slot) then len K else len slot)"
    by (simp add: K32 slot_def)
  have outK: "\<And>a. in_range (addr K) 32 a \<Longrightarrow> prot_of k4 a = prot_of k a"
  proof -
    fix a assume "in_range (addr K) 32 a"
    then have "\<not> in_range base (2 * P + L) a" using Kr by blast
    then show "prot_of k4 a = prot_of k a"
      using P0 Ln n0 by (simp add: p4 R(1-4))
  qed
  have rK: "\<forall>a. in_range (addr K) 32 a \<longrightarrow> readable k4 a"
    using Kr outK by (simp add: readable_def)
  have wS: "\<forall>a. in_range (addr slot) 32 a \<longrightarrow> writable k4 a"
    using P0 Ln n0 by (auto simp add: writable_def p4 R slot_def)
  define k5 where "k5 = k4\<lparr>mem := (\<lambda>a. if in_range (addr slot) 32 a
                         then mem k4 (addr K + (a - addr slot)) else mem k4 a)\<rparr>"
  have a5: "copy_bytes slot K k4 = Inr k5"
    unfolding k5_def by (rule copy_bytes_ok [OF mK _ rK wS]) simp
  have fk5: "fails k5 = fails k" by (simp add: k5_def fk4)
  have i6: "index_addr inner (L - n) = Inr (base + (P + (L - n)))"
    using P0 Ln n0 O by (simp add: index_addr_def inner_def add.assoc)
  define b where "b = \<lparr>buffer = getBytes (base + (P + (L - n))) n, readOnly = False,
      destroyed = False\<rparr>"
  have run: "New P K n k = Inr (Inr b, k5)"
    unfolding New_def Let_def L [symmetric]
    using n0 by (simp add: andThen_def a1 i1 a2 i2 a3 i3 a4 i5 a5 i6 b_def)
  have bb: "buffer b = getBytes (layout_data_addr P base n) n"
    by (simp add: b_def layout_data_addr_def L add.assoc)
  have ab: "addr (buffer b) = base + (P + (L - n))" "len (buffer b) = n" "cap (buffer b) = n"
    by (simp_all add: b_def getBytes_def)
  have base': "addr (buffer b) - ((L - n) + P) = base"
    by (simp add: ab)
  have slot': "addr (buffer b) - 32 = addr slot"
    by (simp add: ab slot_def)
  have p5: "\<And>a. prot_of k5 a = prot_of k4 a" by (simp add: k5_def)
  have base'': "base + (P + (L - n)) - ((L - n) + P) = base"
    by simp
  have g1: "\<forall>a. in_range base (2 * P + L) a \<longrightarrow> prot_of k5 a \<noteq> None"
    by (simp add: p5 p4)
  have g2: "\<forall>a. in_range (base + P) L a \<longrightarrow> prot_of k5 a = Some PROT_READ_WRITE"
    using P0 Ln n0 by (simp add: p5 p4 R)
  have g3: "\<forall>a. in_range (addr K) 32 a \<longrightarrow>
               readable k5 a \<and> \<not> in_range base (2 * P + L) a
               \<and> mem k5 (base + (P + (L - n)) - 32 + (a - addr K)) = mem k5 a"
  proof (intro allI impI)
    fix a assume a: "in_range (addr K) 32 a"
    have r5: "readable k5 a" using a rK by (simp add: readable_def p5)
    have nr: "\<not> in_range base (2 * P + L) a" using a Kr by blast
    have "in_range (addr slot) 32 (addr slot + (a - addr K))"
      using a by (simp add: in_range_def)
    then have 1: "mem k5 (addr slot + (a - addr K)) = mem k4 a"
      by (simp add: k5_def)
    have "\<not> in_range (addr slot) 32 a"
      using nr P0 Ln n0 by (simp add: slot_def R)
    then have 2: "mem k5 a = mem k4 a"
      by (simp add: k5_def)
    from 1 2 have "mem k5 (base + (P + (L - n)) - 32 + (a - addr K)) = mem k5 a"
      using slot' by (simp add: ab)
    with r5 nr show "readable k5 a \<and> \<not> in_range base (2 * P + L) a
               \<and> mem k5 (base + (P + (L - n)) - 32 + (a - addr K)) = mem k5 a"
      by simp
  qed
  have g: "guarded P K b k5"
    unfolding guarded_def Let_def ab L [symmetric] base''
    using g1 g2 g3 n0 P0 Ln PL T K32 by (simp add: b_def)
  have z: "\<forall>a. in_range (addr (buffer b)) n a \<longrightarrow> mem k5 a = 0"
    using P0 Ln n0 by (simp add: k5_def m4 ab slot_def R)
  have fr: "\<forall>a. \<not> in_range base (2 * P + L) a \<longrightarrow>
            prot_of k5 a = prot_of k a \<and> mem k5 a = mem k a \<and> locked k5 a = locked k a"
    using P0 Ln n0 by (auto simp add: k5_def p4 m4 l4 slot_def R)
  have gd: "\<forall>a. in_range base P a \<or> in_range (base + (P + L)) P a \<longrightarrow>
            prot_of k5 a = Some PROT_NONE"
    by (auto simp add: p5 p4)
  have lk: "\<forall>a. in_range (base + P) L a \<longrightarrow> locked k5 a"
    by (simp add: k5_def l4)
  have nm: "next_map k5 = base + (2 * P + L)"
    by (simp add: k5_def k4_def k3_def k2_def k1_def base)
  from run bb g fk5 nm z fr gd lk show ?thesis
    by (intro exI [of _ b] exI [of _ k5]) (simp add: b_def)
qed

lemma Unlock_ok:
  "fails k (Munlock (addr b) (len b)) = None \<Longrightarrow>
   Unlock b k = Inr ((),
     k\<lparr>locked := (\<lambda>a. if in_range (addr b) (len b) a then False else locked k a),
       trace := trace k @ [Munlock (addr b) (len b)]\<rparr>)"
  by (simp add: Unlock_def sys_munlock_def logged_def)

lemma Free_ok:
  "fails k (Munmap (addr b) (len b)) = None \<Longrightarrow>
   Free b k = Inr ((),
     k\<lparr>prot_of := (\<lambda>a. if in_range (addr b) (len b) a then None else prot_of k a),
       locked := (\<lambda>a. if in_range (addr b) (len b) a then False else locked k a),
       trace := trace k @ [Munmap (addr b) (len b)]\<rparr>)"
  by (simp add: Free_def sys_munmap_def logged_def)

lemma Destroy_run:
  assumes g: "guarded P K b k" and acc: "accepts k (destroy_calls P b)"
  shows "\<exists>b' k'. Destroy P K b k = Inr (b', k')
     \<and> b' = b\<lparr>buffer := nil_slice, readOnly := False, destroyed := True\<rparr>
     \<and> fails k' = fails k
     \<and> (\<forall>a. in_range (addr (buffer b) - ((roundToPageSize P (len (buffer b) + 32)
                  - len (buffer b)) + P))
               (2 * P + roundToPageSize P (len (buffer b) + 32)) a \<longrightarrow> prot_of k' a = None)"
proof -
  define n where "n = len (buffer b)"
  define L where "L = roundToPageSize P (n + 32)"
  define base where "base = addr (buffer b) - ((L - n) + P)"
  from g have live: "\<not> destroyed b" and cap: "cap (buffer b) = n" and n0: "0 < sint n"
    and P0: "0 < sint P" and Ln: "sint n + 32 \<le> sint L"
    and PL: "sint (P + L) = sint P + sint L"
    and T: "sint (2 * P + L) = 2 * sint P + sint L"
    and K32: "len K = 32"
    and mapped: "\<forall>a. in_range base (2 * P + L) a \<longrightarrow> prot_of k a \<noteq> None"
    and inner_p: "\<forall>a. in_range (base + P) L a \<longrightarrow>
               prot_of k a = Some (if readOnly b then PROT_READ else PROT_READ_WRITE)"
    and can: "\<forall>a. in_range (addr K) 32 a \<longrightarrow>
               readable k a \<and> \<not> in_range base (2 * P + L) a
               \<and> mem k (addr (buffer b) - 32 + (a - addr K)) = mem k a"
    unfolding guarded_def Let_def n_def [symmetric] L_def [symmetric] base_def [symmetric]
    by simp_all
  have x0: "0 \<le> sint n + 32" using n0 by simp
  note R = region_ranges [OF P0 Ln x0 PL T, of base] buffer_ranges [OF P0 n0 Ln PL, of base]
  from acc have f:
    "fails k (Mprotect (base + P) L PROT_READ_WRITE) = None"
    "fails k (Munlock (base + P) L) = None"
    "fails k (Mprotect base (2 * P + L) PROT_READ_WRITE) = None"
    "fails k (Munmap base (2 * P + L)) = None"
    unfolding accepts_def destroy_calls_def Let_def n_def [symmetric] L_def [symmetric]
      base_def [symmetric]
    by simp_all
  have da: "addr (buffer b) = base + (P + (L - n))"
    by (simp add: base_def)
  have sa: "addr (buffer b) - 32 = base + (P + (L - n - 32))"
    by (simp add: base_def)
  define region where "region = getBytes base (2 * P + L)"
  have s1: "getAllMemory P b = Inr region"
    using n0 by (simp add: getAllMemory_def Let_def region_def mult.commute
        flip: n_def L_def base_def)
  define inner where "inner = \<lparr>addr = base + P, len = L, cap = 2 * P + L - P\<rparr>"
  have e1: "2 * P + L - P = P + L" by simp
  have s2: "slice_of region P (len region - P) = Inr inner"
    using P0 Ln n0 PL T
    by (simp add: slice_of_def region_def getBytes_def inner_def e1)
  define k1 where "k1 = k\<lparr>prot_of := (\<lambda>a. if in_range (base + P) L a
                       then map_option (\<lambda>_. PROT_READ_WRITE) (prot_of k a) else prot_of k a),
       trace := trace k @ [Mprotect (base + P) L PROT_READ_WRITE]\<rparr>"
  have s3: "Protect inner True True k = Inr ((), k1)"
  proof -
    have "fails k (Mprotect (addr inner) (len inner)
       (if True \<and> True then PROT_READ_WRITE else if True then PROT_READ
        else if True then PROT_WRITE else PROT_NONE)) = None"
      using f(1) by (simp add: inner_def)
    from Protect_ok [OF this] show ?thesis by (simp add: k1_def inner_def)
  qed
  have fk1: "fails k1 = fails k" by (simp add: k1_def)
  have p1: "\<And>a. in_range (base + P) L a \<Longrightarrow> prot_of k1 a = Some PROT_READ_WRITE"
    using inner_p by (simp add: k1_def)
  have p1': "\<And>a. \<not> in_range (base + P) L a \<Longrightarrow> prot_of k1 a = prot_of k a"
    by (simp add: k1_def)
  define slot where "slot = getBytes (addr (buffer b) - 32) 32"
  have sl: "addr slot = base + (P + (L - n - 32))" "len slot = 32"
    by (simp_all add: slot_def getBytes_def sa)
  have in_slot: "\<And>a. in_range (addr slot) (len slot) a \<Longrightarrow> in_range (base + P) L a"
    using P0 Ln n0 by (simp add: sl R)
  have in_data: "\<And>a. in_range (addr (buffer b)) n a \<Longrightarrow> in_range (base + P) L a"
    using P0 Ln n0 by (simp add: da R)
  have out_K: "\<And>a. in_range (addr K) 32 a \<Longrightarrow> \<not> in_range (base + P) L a"
  proof -
    fix a assume "in_range (addr K) 32 a"
    then have "\<not> in_range base (2 * P + L) a" using can by blast
    then show "\<not> in_range (base + P) L a"
      using P0 Ln n0 by (simp add: R)
  qed
  have r_slot: "\<forall>a. in_range (addr slot) (len slot) a \<longrightarrow> readable k1 a"
    using in_slot p1 by (simp add: readable_def)
  have r_K: "\<forall>a. in_range (addr K) (len K) a \<longrightarrow> readable k1 a"
    using can out_K p1' by (simp add: readable_def K32)
  define found where "found = map (\<lambda>i. mem k1 (addr slot + of_nat i)) (offsets (len slot))"
  define expected where "expected = map (\<lambda>i. mem k1 (addr K + of_nat i)) (offsets (len K))"
  have s4: "load_bytes slot k1 = Inr found"
    unfolding found_def using r_slot by (intro load_bytes_ok) (simp_all add: sl)
  have s5: "load_bytes K k1 = Inr expected"
    unfolding expected_def using r_K by (intro load_bytes_ok) (simp_all add: K32)
  have same: "found = expected"
  proof -
    have "\<And>i. i \<in> set (offsets 32) \<Longrightarrow>
        mem k1 (addr slot + of_nat i) = mem k1 (addr K + of_nat i)"
    proof -
      fix i assume "i \<in> set (offsets 32)"
      then have "i < nat (sint (32 :: gint))" by (simp add: offsets_def)
      then have "in_range (addr K) 32 (addr K + of_nat i)"
        by (intro in_range_of_nat) simp_all
      with can have "mem k (addr (buffer b) - 32 + (addr K + of_nat i - addr K))
          = mem k (addr K + of_nat i)"
        by blast
      then show "mem k1 (addr slot + of_nat i) = mem k1 (addr K + of_nat i)"
        by (simp add: k1_def slot_def getBytes_def)
    qed
    then show ?thesis
      unfolding found_def expected_def sl K32 by (intro map_cong) simp_all
  qed
  define k2 where "k2 = k1\<lparr>mem := (\<lambda>a. if in_range (addr slot) (len slot) a then 0 else mem k1 a)\<rparr>"
  have s6: "wipeBytes slot k1 = Inr k2"
    unfolding k2_def using in_slot p1 by (intro wipeBytes_ok) (simp_all add: writable_def sl)
  define k3 where "k3 = k2\<lparr>mem := (\<lambda>a. if in_range (addr (buffer b)) (len (buffer b)) a then 0
                                    else mem k2 a)\<rparr>"
  have s7: "wipeBytes (buffer b) k2 = Inr k3"
    unfolding k3_def using in_data p1 n0
    by (intro wipeBytes_ok) (simp_all add: writable_def k2_def flip: n_def)
  have fk3: "fails k3 = fails k" by (simp add: k3_def k2_def fk1)
  define k4 where "k4 = k3\<lparr>locked := (\<lambda>a. if in_range (base + P) L a then False else locked k3 a),
       trace := trace k3 @ [Munlock (base + P) L]\<rparr>"
  have s8: "Unlock inner k3 = Inr ((), k4)"
  proof -
    have "fails k3 (Munlock (addr inner) (len inner)) = None"
      using f(2) by (simp add: fk3 inner_def)
    from Unlock_ok [OF this] show ?thesis by (simp add: k4_def inner_def)
  qed
  have fk4: "fails k4 = fails k" by (simp add: k4_def fk3)
  define k5 where "k5 = k4\<lparr>prot_of := (\<lambda>a. if in_range base (2 * P + L) a
                       then map_option (\<lambda>_. PROT_READ_WRITE) (prot_of k4 a) else prot_of k4 a),
       trace := trace k4 @ [Mprotect base (2 * P + L) PROT_READ_WRITE]\<rparr>"
  have s9: "Protect region True True k4 = Inr ((), k5)"
  proof -
    have "fails k4 (Mprotect (addr region) (len region)
       (if True \<and> True then PROT_READ_WRITE else if True then PROT_READ
        else if True then PROT_WRITE else PROT_NONE)) = None"
      using f(3) by (simp add: fk4 region_def getBytes_def)
    from Protect_ok [OF this] show ?thesis by (simp add: k5_def region_def getBytes_def)
  qed
  have fk5: "fails k5 = fails k" by (simp add: k5_def fk4)
  define k6 where "k6 = k5\<lparr>prot_of := (\<lambda>a. if in_range base (2 * P + L) a then None else prot_of k5 a),
       locked := (\<lambda>a. if in_range base (2 * P + L) a then False else locked k5 a),
       trace := trace k5 @ [Munmap base (2 * P + L)]\<rparr>"
  have s10: "Free region k5 = Inr ((), k6)"
  proof -
    have "fails k5 (Munmap (addr region) (len region)) = None"
      using f(4) by (simp add: fk5 region_def getBytes_def)
    from Free_ok [OF this] show ?thesis by (simp add: k6_def region_def getBytes_def)
  qed
  have fk6: "fails k6 = fails k" by (simp add: k6_def fk5)
  define b' where "b' = b\<lparr>buffer := nil_slice, readOnly := False, destroyed := True\<rparr>"
  have run: "Destroy P K b k = Inr (b', k6)"
    unfolding Destroy_def Let_def
    using live same
    by (simp add: andThen_def s1 s2 s3 s4 s5 s6 s7 s8 s9 s10 b'_def flip: slot_def)
  have un: "\<forall>a. in_range base (2 * P + L) a \<longrightarrow> prot_of k6 a = None"
    by (simp add: k6_def)
  from run fk6 un show ?thesis
    unfolding base_def L_def n_def b'_def by blast
qed

lemma buffer_arith:
  assumes j: "j < 62" and n0: "0 < sint n" and nb: "sint n + 32 + 3 * 2 ^ j \<le> 2 ^ 63"
  defines "L \<equiv> roundToPageSize (2 ^ j) (n + 32)"
  shows "0 < sint (2 ^ j :: gint)" and "sint n + 32 \<le> sint L"
    and "sint (2 ^ j + L) = sint (2 ^ j :: gint) + sint L"
    and "sint (2 * 2 ^ j + L) = 2 * sint (2 ^ j :: gint) + sint L"
proof -
  define Q :: int where "Q = 3 * 2 ^ j"
  have q: "0 < Q" by (simp add: Q_def)
  have "sint n + 32 + Q \<le> 2 ^ 63" using nb by (simp only: Q_def)
  then have "sint n + sint (32 :: gint) < 2 ^ 63" using q by simp
  moreover have "- (2 ^ 63) \<le> sint n + sint (32 :: gint)" using n0 by simp
  ultimately have s: "sint (n + 32) = sint n + 32"
    using sint_add_64 [of n 32] by simp
  have x0: "0 \<le> sint (n + 32)" using n0 by (simp add: s)
  have xb: "sint (n + 32) + 3 * 2 ^ j \<le> 2 ^ 63" using nb by (simp add: s)
  note A = layout_arith [OF j x0 xb, folded L_def]
  show "0 < sint (2 ^ j :: gint)" by (simp only: A(1)) simp
  show "sint n + 32 \<le> sint L" using A(3) by (simp add: s)
  show "sint (2 ^ j + L) = sint (2 ^ j :: gint) + sint L" by (simp only: A(1) A(5))
  show "sint (2 * 2 ^ j + L) = 2 * sint (2 ^ j :: gint) + sint L" by (simp only: A(1) A(6))
qed



lemma New_succeeds:
  assumes n0: "0 < sint n" and j: "j < 62" and P: "P = 2 ^ j"
    and nb: "sint n + 32 + 3 * 2 ^ j \<le> 2 ^ 63"
    and acc: "accepts k (new_calls P (next_map k) n)" and K32: "len K = 32"
    and Kr: "\<forall>a. in_range (addr K) 32 a \<longrightarrow>
               readable k a
               \<and> \<not> in_range (next_map k) (2 * P + roundToPageSize P (n + 32)) a"
  shows "\<exists>b k'. New P K n k = Inr (Inr b, k')
               \<and> len (buffer b) = n \<and> cap (buffer b) = n
               \<and> buffer b = getBytes (layout_data_addr P (next_map k) n) n
               \<and> \<not> readOnly b \<and> \<not> destroyed b
               \<and> guarded P K b k'
               \<and> (\<forall>a. in_range (addr (buffer b)) n a \<longrightarrow> mem k' a = 0)
               \<and> fails k' = fails k"
proof -
  define L where "L = roundToPageSize P (n + 32)"
  define base where "base = next_map k"
  note A = buffer_arith [OF j n0 nb, folded P, folded L_def]
  from New_run [OF A(1) n0 A(2) A(3) A(4) L_def base_def acc [folded base_def] K32
      Kr [folded L_def base_def]]
  obtain b k' where r: "New P K n k = Inr (Inr b, k')"
    and bb: "buffer b = getBytes (layout_data_addr P base n) n"
    and fl: "\<not> readOnly b" "\<not> destroyed b"
    and g: "guarded P K b k'"
    and z: "\<forall>a. in_range (addr (buffer b)) n a \<longrightarrow> mem k' a = 0"
    and fk: "fails k' = fails k"
    by blast
  from bb have "len (buffer b) = n" "cap (buffer b) = n"
    by (simp_all add: getBytes_def)
  with r bb fl g z fk show ?thesis
    unfolding base_def by blast
qed



section \<open>A run from a fresh process\<close>

lemma boot_canary:
  "\<exists>K k1. createCanary 4096 boot = Inr (K, k1) \<and> K = getBytes 73696 32
     \<and> fails k1 = fails boot \<and> next_map k1 = 77824
     \<and> (\<forall>a. in_range 73696 32 a \<longrightarrow> readable k1 a)"
proof -
  have L: "(4096 :: gint) = roundToPageSize 4096 32"
    by (simp add: roundToPageSize_def)
  have base: "(65536 :: uintptr) = next_map boot"
    by (simp add: boot_def)
  have acc: "accepts boot (canary_calls 4096 65536)"
    by (simp add: accepts_def canary_calls_def Let_def boot_def)
  have "\<exists>c k'. createCanary 4096 boot = Inr (c, k') \<and> canary_region 4096 boot c k'
     \<and> trace k' = trace boot @ [Mmap (2 * 4096 + 4096), Madvise (65536 + 4096) 4096 16,
          Mlock (65536 + 4096) 4096,
          Mprotect 65536 4096 PROT_NONE, Mprotect (65536 + (4096 + 4096)) 4096 PROT_NONE,
          GetRandom (65536 + (4096 + 4096 - 32)) 32, Mprotect (65536 + 4096) 4096 PROT_READ]
     \<and> drawn k' = drawn boot + 32
     \<and> fails k' = fails boot \<and> next_map k' = 65536 + (2 * 4096 + 4096)"
    by (rule createCanary_run [OF _ _ _ _ L base acc]) simp_all
  then obtain c k' where run: "createCanary 4096 boot = Inr (c, k')"
    and reg: "canary_region 4096 boot c k'"
    and fk: "fails k' = fails boot" and nm: "next_map k' = 65536 + (2 * 4096 + 4096)"
    by blast
  from reg have c: "c = getBytes 73696 32"
    by (simp add: canary_region_def Let_def L [symmetric] boot_def)
  from reg have a: "\<And>a. (in_range 69632 4096 a \<longrightarrow> prot_of k' a = Some PROT_READ)
         \<and> (in_range 73696 32 a \<longrightarrow> in_range 69632 4096 a)"
    by (simp add: canary_region_def Let_def L [symmetric] boot_def getBytes_def)
  have r: "\<forall>a. in_range 73696 32 a \<longrightarrow> readable k' a"
    using a by (simp add: readable_def)
  from run c fk nm r show ?thesis by simp
qed

lemma canary_outside:
  assumes "in_range 73696 32 a"
  shows "\<not> in_range 77824 12288 a"
proof -
  have "in_range (73696 + 4128) 12288 a \<longleftrightarrow>
      sint (4128 :: gint) \<le> uint (a - 73696)
      \<and> uint (a - 73696) < sint (4128 :: gint) + sint (12288 :: gint)"
    by (rule in_range_offset) simp_all
  moreover have "uint (a - 73696) < 32"
    using assms in_range_base [of 32 73696 a] by simp
  ultimately show ?thesis by simp
qed


theorem Destroy_then_ErrDestroyed_witness:
  "\<exists>K k1 b k2 b' k3. createCanary 4096 boot = Inr (K, k1)
     \<and> New 4096 K 4 k1 = Inr (Inr b, k2)
     \<and> container_inv b
     \<and> Destroy 4096 K b k2 = Inr (b', k3)
     \<and> buffer b' = nil_slice \<and> destroyed b' \<and> \<not> readOnly b'
     \<and> Copy b' (getBytes 4096 4) k3 = Inr (Some ErrDestroyed, k3)
     \<and> Move b' (getBytes 4096 4) k3 = Inr (Some ErrDestroyed, k3)
     \<and> MarkAsReadOnly 4096 b' k3 = Inr (Some ErrDestroyed, b', k3)
     \<and> MarkAsReadWrite 4096 b' k3 = Inr (Some ErrDestroyed, b', k3)
     \<and> EqualTo b' (getBytes 4096 4) k3 = Inr (False, Some ErrDestroyed)
     \<and> Trim 4096 K b' 2 4 k3 = Inr (Inl ErrDestroyed, k3)
     \<and> Destroy 4096 K b' k3 = Inr (b', k3)"
proof -
  from boot_canary obtain K k1 where run: "createCanary 4096 boot = Inr (K, k1)"
    and K: "K = getBytes 73696 32" and fk: "fails k1 = fails boot"
    and nm: "next_map k1 = 77824" and r: "\<forall>a. in_range 73696 32 a \<longrightarrow> readable k1 a"
    by blast
  have R: "roundToPageSize 4096 36 = 4096"
    by (simp add: roundToPageSize_def)
  have "\<exists>b k'. New 4096 K 4 k1 = Inr (Inr b, k')
               \<and> len (buffer b) = 4 \<and> cap (buffer b) = 4
               \<and> buffer b = getBytes (layout_data_addr 4096 (next_map k1) 4) 4
               \<and> \<not> readOnly b \<and> \<not> destroyed b
               \<and> guarded 4096 K b k'
               \<and> (\<forall>a. in_range (addr (buffer b)) 4 a \<longrightarrow> mem k' a = 0)
               \<and> fails k' = fails k1"
    using r canary_outside
    by (intro New_succeeds [of 4 12])
       (simp_all add: accepts_def new_calls_def Let_def fk boot_def K getBytes_def nm R)
  then obtain b k2 where new: "New 4096 K 4 k1 = Inr (Inr b, k2)"
    and live: "\<not> destroyed b" and g: "guarded 4096 K b k2" and fk2: "fails k2 = fails k1"
    by blast
  have inv: "container_inv b" using live by (simp add: container_inv_def)
  have acc: "accepts k2 (destroy_calls 4096 b)"
    by (simp add: accepts_def destroy_calls_def Let_def fk2 fk boot_def)
  from Destroy_run [OF g acc] obtain b' k3 where d: "Destroy 4096 K b k2 = Inr (b', k3)"
    by blast
  note T = Destroy_then_ErrDestroyed [OF inv d, of "getBytes 4096 4" "getBytes 4096 4" 2 4]
  from run new inv d T show ?thesis by blast
qed

section \<open>The region of a buffer\<close>

lemma region_numbers:
  fixes n :: gint
  assumes j: "j < 62" and n0: "0 < sint n" and nb: "sint n + 32 + 3 * 2 ^ j \<le> 2 ^ 63"
  defines "L \<equiv> roundToPageSize (2 ^ j) (n + 32)"
  shows "sint (2 * 2 ^ j + L) = 2 * 2 ^ j + sint L"
    and "2 ^ j dvd sint L" and "sint n + 32 \<le> sint L" and "sint L < sint n + 32 + 2 ^ j"
    and "uint (base + (2 ^ j + (L - n)) - base) = (sint L - sint n) + 2 ^ j"
    and "in_range (base + (2 ^ j + (L - n))) n a \<Longrightarrow> in_range (base + 2 ^ j) L a"
    and "in_range (base + (2 ^ j + L)) (2 ^ j) (base + (2 ^ j + (L - n)) + n)"
proof -
  define Q :: int where "Q = 3 * 2 ^ j"
  have q: "0 < Q" by (simp add: Q_def)
  have "sint n + 32 + Q \<le> 2 ^ 63" using nb by (simp only: Q_def)
  then have "sint n + sint (32 :: gint) < 2 ^ 63" using q by simp
  moreover have "- (2 ^ 63) \<le> sint n + sint (32 :: gint)" using n0 by simp
  ultimately have s: "sint (n + 32) = sint n + 32"
    using sint_add_64 [of n 32] by simp
  have x0: "0 \<le> sint (n + 32)" using n0 by (simp add: s)
  have xb: "sint (n + 32) + 3 * 2 ^ j \<le> 2 ^ 63" using nb by (simp add: s)
  note A = layout_arith [OF j x0 xb, folded L_def]
  note B = buffer_arith [OF j n0 nb, folded L_def]
  note O = buffer_offsets [OF B(1) n0 B(2) B(3)]
  note R = region_ranges [OF B(1) B(2) _ B(3) B(4), of base] buffer_ranges [OF B(1) n0 B(2) B(3), of base]
  have x1: "0 \<le> sint n + 32" using n0 by simp
  show "sint (2 * 2 ^ j + L) = 2 * 2 ^ j + sint L" by (rule A(6))
  show "2 ^ j dvd sint L" by (rule A(2))
  show "sint n + 32 \<le> sint L" by (rule B(2))
  show "sint L < sint n + 32 + 2 ^ j" using A(4) by (simp add: s)
  have "0 \<le> sint (2 ^ j + (L - n))"
    using O(3) B(1) B(2) n0 by simp
  then have "uint (2 ^ j + (L - n)) = sint (2 ^ j + (L - n))"
    by (rule uint_of_nonneg)
  then show "uint (base + (2 ^ j + (L - n)) - base) = (sint L - sint n) + 2 ^ j"
    using O(3) by (simp add: A(1))
  show "in_range (base + (2 ^ j + (L - n))) n a \<Longrightarrow> in_range (base + 2 ^ j) L a"
    using B(1) B(2) n0 by (simp add: R(2) [OF x1] R(6))
  have "in_range (base + (2 ^ j + L)) (2 ^ j) (base + (2 ^ j + L))"
    using B(1) by (simp add: in_range_base)
  then show "in_range (base + (2 ^ j + L)) (2 ^ j) (base + (2 ^ j + (L - n)) + n)"
    by simp
qed

text \<open>
  Claim C7. For a container whose buffer has length \<open>n \<ge> 1\<close>, \<open>getAllMemory\<close> returns
  a slice of length (and capacity) \<open>2 * P + roundToPageSize (n + 32)\<close> that begins
  \<open>(roundToPageSize (n + 32) - n) + P\<close> bytes before the first byte of the buffer. So
  the buffer ends where the inner page set ends, \<open>P\<close> bytes after the start of the slice
  plus the rounded length, and the \<open>P\<close> bytes that follow it, the rear guard, end the
  slice. When the buffer lies in the guarded layout of a region starting at \<open>base\<close>,
  the slice is that region. These are equations between 64-bit values; when the page
  size is a power of two and the sizes fit in an \<open>int\<close>, they hold between the numbers
  as well: the length is \<open>2 * P\<close> plus the least multiple of \<open>P\<close> that is at least
  \<open>n + 32\<close>, the distance from the start of the slice to the buffer is that multiple
  minus \<open>n\<close> plus \<open>P\<close>, every byte of the buffer lies in the inner page set, and the
  byte after the buffer is the first byte of the rear guard.
\<close>

theorem getAllMemory_region:
  assumes n: "0 < sint (len (buffer b))"
  shows "\<exists>m. getAllMemory P b = Inr m
     \<and> len m = 2 * P + roundToPageSize P (len (buffer b) + 32)
     \<and> cap m = len m
     \<and> addr m + ((roundToPageSize P (len (buffer b) + 32) - len (buffer b)) + P)
         = addr (buffer b)
     \<and> addr (buffer b) + len (buffer b)
         = addr m + P + roundToPageSize P (len (buffer b) + 32)
     \<and> addr (buffer b) + len (buffer b) + P = addr m + len m
     \<and> (\<forall>base. addr (buffer b) = layout_data_addr P base (len (buffer b)) \<longrightarrow>
            m = getBytes base (2 * P + roundToPageSize P (len (buffer b) + 32)))
     \<and> (\<forall>j. j < 62 \<and> P = 2 ^ j \<and> sint (len (buffer b)) + 32 + 3 * 2 ^ j \<le> 2 ^ 63 \<longrightarrow>
            sint (len m) = 2 * 2 ^ j + sint (roundToPageSize P (len (buffer b) + 32))
          \<and> 2 ^ j dvd sint (roundToPageSize P (len (buffer b) + 32))
          \<and> sint (len (buffer b)) + 32 \<le> sint (roundToPageSize P (len (buffer b) + 32))
          \<and> sint (roundToPageSize P (len (buffer b) + 32)) < sint (len (buffer b)) + 32 + 2 ^ j
          \<and> uint (addr (buffer b) - addr m)
               = (sint (roundToPageSize P (len (buffer b) + 32)) - sint (len (buffer b))) + 2 ^ j
          \<and> (\<forall>a. in_range (addr (buffer b)) (len (buffer b)) a \<longrightarrow>
                 in_range (addr m + P) (roundToPageSize P (len (buffer b) + 32)) a)
          \<and> in_range (addr m + (P + roundToPageSize P (len (buffer b) + 32))) P
               (addr (buffer b) + len (buffer b)))"
proof -
  define nn where "nn = len (buffer b)"
  define L where "L = roundToPageSize P (nn + 32)"
  define m where "m = getBytes (addr (buffer b) - ((L - nn) + P)) (2 * P + L)"
  have run: "getAllMemory P b = Inr m"
    using n by (simp add: getAllMemory_def Let_def m_def L_def nn_def mult.commute)
  have am: "addr m = addr (buffer b) - ((L - nn) + P)" and lm: "len m = 2 * P + L"
    and cm: "cap m = len m"
    by (simp_all add: m_def getBytes_def)
  have ab: "addr (buffer b) = addr m + (P + (L - nn))"
    by (simp add: am)
  have w1: "addr m + ((L - nn) + P) = addr (buffer b)" by (simp add: am)
  have w2: "addr (buffer b) + nn = addr m + P + L" by (simp add: am)
  have w3: "addr (buffer b) + nn + P = addr m + len m" by (simp add: am lm)
  have w4: "\<forall>base. addr (buffer b) = layout_data_addr P base nn \<longrightarrow>
            m = getBytes base (2 * P + L)"
    by (simp add: m_def layout_data_addr_def L_def)
  have w5: "\<forall>j. j < 62 \<and> P = 2 ^ j \<and> sint nn + 32 + 3 * 2 ^ j \<le> 2 ^ 63 \<longrightarrow>
            sint (len m) = 2 * 2 ^ j + sint L
          \<and> 2 ^ j dvd sint L
          \<and> sint nn + 32 \<le> sint L
          \<and> sint L < sint nn + 32 + 2 ^ j
          \<and> uint (addr (buffer b) - addr m) = (sint L - sint nn) + 2 ^ j
          \<and> (\<forall>a. in_range (addr (buffer b)) nn a \<longrightarrow> in_range (addr m + P) L a)
          \<and> in_range (addr m + (P + L)) P (addr (buffer b) + nn)"
  proof (intro allI impI)
    fix j assume "j < 62 \<and> P = 2 ^ j \<and> sint nn + 32 + 3 * 2 ^ j \<le> 2 ^ 63"
    then have j: "j < 62" and P: "P = 2 ^ j" and nb: "sint nn + 32 + 3 * 2 ^ j \<le> 2 ^ 63"
      by blast+
    have n0: "0 < sint nn" using n by (simp add: nn_def)
    note N = region_numbers(1-4) [OF j n0 nb, folded P, folded L_def]
      region_numbers(5) [OF j n0 nb, where base = "addr m", folded P, folded L_def, folded ab]
      region_numbers(6) [OF j n0 nb, where base = "addr m", folded P, folded L_def, folded ab]
      region_numbers(7) [OF j n0 nb, where base = "addr m", folded P, folded L_def, folded ab]
    show "sint (len m) = 2 * 2 ^ j + sint L
          \<and> 2 ^ j dvd sint L
          \<and> sint nn + 32 \<le> sint L
          \<and> sint L < sint nn + 32 + 2 ^ j
          \<and> uint (addr (buffer b) - addr m) = (sint L - sint nn) + 2 ^ j
          \<and> (\<forall>a. in_range (addr (buffer b)) nn a \<longrightarrow> in_range (addr m + P) L a)
          \<and> in_range (addr m + (P + L)) P (addr (buffer b) + nn)"
      unfolding lm using N by (intro conjI allI impI)
  qed
  from run lm cm w1 w2 w3 w4 w5 show ?thesis
    unfolding nn_def L_def by (intro exI [of _ m] conjI)
qed

theorem getAllMemory_region_witness:
  "0 < sint (len (buffer \<lparr>buffer = getBytes 77820 4, readOnly = False, destroyed = False\<rparr>))
   \<and> getAllMemory 4096 \<lparr>buffer = getBytes 77820 4, readOnly = False, destroyed = False\<rparr>
       = Inr (getBytes 69632 12288)
   \<and> 77820 = layout_data_addr 4096 69632 4
   \<and> (12 :: nat) < 62 \<and> (4096 :: gint) = 2 ^ 12 \<and> sint (4 :: gint) + 32 + 3 * 2 ^ 12 \<le> 2 ^ 63
   \<and> uint (77820 - 69632 :: uintptr) = (sint (roundToPageSize 4096 36) - sint (4 :: gint)) + 2 ^ 12
   \<and> in_range (69632 + (4096 + roundToPageSize 4096 36)) 4096 (77820 + 4)"
proof -
  let ?b = "\<lparr>buffer = getBytes 77820 4, readOnly = False, destroyed = False\<rparr>"
  have h: "0 < sint (len (buffer ?b))"
    by (simp add: getBytes_def)
  from getAllMemory_region [OF h, of 4096]
  obtain m where m: "getAllMemory 4096 ?b = Inr m"
    and lay: "\<forall>base. addr (buffer ?b) = layout_data_addr 4096 base (len (buffer ?b)) \<longrightarrow>
            m = getBytes base (2 * 4096 + roundToPageSize 4096 (len (buffer ?b) + 32))"
    and num: "\<forall>j. j < 62 \<and> (4096 :: gint) = 2 ^ j
                \<and> sint (len (buffer ?b)) + 32 + 3 * 2 ^ j \<le> 2 ^ 63 \<longrightarrow>
            sint (len m) = 2 * 2 ^ j + sint (roundToPageSize 4096 (len (buffer ?b) + 32))
          \<and> 2 ^ j dvd sint (roundToPageSize 4096 (len (buffer ?b) + 32))
          \<and> sint (len (buffer ?b)) + 32 \<le> sint (roundToPageSize 4096 (len (buffer ?b) + 32))
          \<and> sint (roundToPageSize 4096 (len (buffer ?b) + 32)) < sint (len (buffer ?b)) + 32 + 2 ^ j
          \<and> uint (addr (buffer ?b) - addr m)
               = (sint (roundToPageSize 4096 (len (buffer ?b) + 32)) - sint (len (buffer ?b))) + 2 ^ j
          \<and> (\<forall>a. in_range (addr (buffer ?b)) (len (buffer ?b)) a \<longrightarrow>
                 in_range (addr m + 4096) (roundToPageSize 4096 (len (buffer ?b) + 32)) a)
          \<and> in_range (addr m + (4096 + roundToPageSize 4096 (len (buffer ?b) + 32))) 4096
               (addr (buffer ?b) + len (buffer ?b))"
    by (elim exE conjE) (rule that, assumption+)
  have a: "addr (buffer ?b) = layout_data_addr 4096 69632 (len (buffer ?b))"
    by (simp add: getBytes_def layout_data_addr_def roundToPageSize_def)
  with lay have "m = getBytes 69632 (2 * 4096 + roundToPageSize 4096 (len (buffer ?b) + 32))"
    by blast
  then have m': "m = getBytes 69632 12288"
    by (simp add: roundToPageSize_def getBytes_def)
  have hj: "(12 :: nat) < 62 \<and> (4096 :: gint) = 2 ^ 12
      \<and> sint (len (buffer ?b)) + 32 + 3 * 2 ^ 12 \<le> 2 ^ 63"
    by (simp add: getBytes_def)
  note nj = num [rule_format, OF hj]
  from nj [THEN conjunct2, THEN conjunct2, THEN conjunct2, THEN conjunct2, THEN conjunct1]
  have n1: "uint (77820 - 69632 :: uintptr)
      = (sint (roundToPageSize 4096 36) - sint (4 :: gint)) + 2 ^ 12"
    unfolding m' by (simp add: getBytes_def)
  from nj [THEN conjunct2, THEN conjunct2, THEN conjunct2, THEN conjunct2, THEN conjunct2,
        THEN conjunct2]
  have n2: "in_range (69632 + (4096 + roundToPageSize 4096 36)) 4096 (77820 + 4)"
    unfolding m' by (simp add: getBytes_def)
  have g1: "0 < sint (len (buffer ?b))" by (rule h)
  have g2: "getAllMemory 4096 ?b = Inr (getBytes 69632 12288)"
    using m by (simp only: m')
  have g3: "(77820 :: uintptr) = layout_data_addr 4096 69632 4"
    using a by (simp add: getBytes_def)
  have g4: "(12 :: nat) < 62" by simp
  have g5: "(4096 :: gint) = 2 ^ 12" by simp
  have g6: "sint (4 :: gint) + 32 + 3 * 2 ^ 12 \<le> 2 ^ 63" by simp
  from g1 g2 g3 g4 g5 g6 n1 n2 show ?thesis
    by (intro conjI)
qed

end
